theory Spec2Isabelle
  imports Main "HOL-Library.AList"
begin

section \<open>The scanner\<close>

text \<open>The only error a read of an in-memory string can give is \<^verbatim>\<open>io.EOF\<close>.\<close>

datatype error = EOF

text \<open>
  Modelled from the spec: the \<^verbatim>\<open>Scanner\<close> type and its methods (\<^verbatim>\<open>NewScanner\<close>,
  \<^verbatim>\<open>Mark\<close>, \<^verbatim>\<open>ReadRune\<close>, \<^verbatim>\<open>UnreadRune\<close>, \<^verbatim>\<open>Reset\<close>, \<^verbatim>\<open>Slice\<close>, \<^verbatim>\<open>Pos\<close>) are
  not among the sources. The spec (4.1) gives the chunker "the full input text and a
  mutable read cursor"; the callers say that \<^verbatim>\<open>Slice(mark)\<close> is the input "starting from
  mark to the current read head", that \<^verbatim>\<open>UnreadRune\<close> makes the next call reprocess the
  character just read, and that in \<^verbatim>\<open>Reset(slashMark + 1)\<close> "the +1 is to unread the
  original slash as well", where \<^verbatim>\<open>slashMark\<close> was taken after the slash was read. So a
  mark one larger is a position one character earlier: a mark is the number of characters
  still unread. Characters are bytes; every character the chunker tests is ASCII, so
  reading bytes and reading UTF-8 runes cut the input at the same places.
\<close>

record Scanner =
  str :: string
  pos :: nat

definition NewScanner :: "string \<Rightarrow> Scanner" where
  "NewScanner s = \<lparr>str = s, pos = 0\<rparr>"

definition Mark :: "Scanner \<Rightarrow> nat" where
  "Mark sc = length (str sc) - pos sc"

definition ReadRune :: "Scanner \<Rightarrow> char \<times> error option \<times> Scanner" where
  "ReadRune sc =
     (if pos sc \<ge> length (str sc) then (CHR 0x00, Some EOF, sc)
      else (str sc ! pos sc, None, sc\<lparr>pos := pos sc + 1\<rparr>))"

definition UnreadRune :: "Scanner \<Rightarrow> Scanner" where
  "UnreadRune sc = sc\<lparr>pos := pos sc - 1\<rparr>"

definition Reset :: "Scanner \<Rightarrow> nat \<Rightarrow> Scanner" where
  "Reset sc m = sc\<lparr>pos := length (str sc) - m\<rparr>"

definition Slice :: "Scanner \<Rightarrow> nat \<Rightarrow> string" where
  "Slice sc m =
     (let start = length (str sc) - m in take (pos sc - start) (drop start (str sc)))"

definition Pos :: "Scanner \<Rightarrow> nat" where
  "Pos sc = pos sc"

section \<open>Chunks\<close>

abbreviation KSTRING :: int where "KSTRING \<equiv> 1"
abbreviation KCOMMENT :: int where "KCOMMENT \<equiv> 2"
abbreviation KTEXT :: int where "KTEXT \<equiv> 3"

record Chunk =
  kind :: int
  "text" :: string
  numNL :: int

text \<open>The zero value of \<^verbatim>\<open>Chunk\<close>, which \<^verbatim>\<open>nextChunk\<close> returns with the end of input.\<close>

definition zeroChunk :: Chunk where
  "zeroChunk = \<lparr>kind = 0, text = [], numNL = 0\<rparr>"

text \<open>
  A Go \<^verbatim>\<open>panic\<close> is a value of the model: the newline inside a quoted literal (with the
  scanner's position), the bracket left open (with \<^verbatim>\<open>brackOpenAt\<close> and \<^verbatim>\<open>brackCount\<close>),
  \<^verbatim>\<open>panic(err)\<close> for a read error other than the end of input, and the panic of \<^verbatim>\<open>save\<close>
  when the file cannot be opened (with its message).
\<close>

datatype panic = NewlineInString nat | BracketNotClosed int int | ReadError error | Unable string

abbreviation NL :: char where "NL \<equiv> CHR 0x0A"
abbreviation DQUOTE :: char where "DQUOTE \<equiv> CHR 0x22"
abbreviation SQUOTE :: char where "SQUOTE \<equiv> CHR 0x27"
abbreviation BQUOTE :: char where "BQUOTE \<equiv> CHR 0x60"
abbreviation BSLASH :: char where "BSLASH \<equiv> CHR 0x5C"

definition mkChunk ::
  "nat \<Rightarrow> Scanner \<Rightarrow> int \<Rightarrow> int \<Rightarrow> error option \<Rightarrow> (Chunk \<times> error option) \<times> Scanner" where
  "mkChunk mark sc knd numLines err =
     (let txt = Slice sc mark;
          err' = (if length txt > 0 \<and> err = Some EOF then None else err)
      in ((\<lparr>kind = knd, text = txt, numNL = numLines\<rparr>, err'), sc))"

function readSingleLineComment :: "nat \<Rightarrow> Scanner \<Rightarrow> (Chunk \<times> error option) \<times> Scanner" where
  "readSingleLineComment mark sc =
     (case ReadRune sc of (ch, err, sc1) \<Rightarrow>
        if err \<noteq> None \<or> ch = NL then mkChunk mark sc1 KCOMMENT 1 err
        else readSingleLineComment mark sc1)"
  by pat_completeness auto
termination
  by (relation "measure (\<lambda>(mark, sc). length (str sc) - pos sc)")
     (auto simp: ReadRune_def split: if_splits)

function readMultilineComment ::
  "nat \<Rightarrow> Scanner \<Rightarrow> int \<Rightarrow> (Chunk \<times> error option) \<times> Scanner" where
  "readMultilineComment mark sc numLines =
     (case ReadRune sc of (ch, err, sc1) \<Rightarrow>
        if err \<noteq> None then mkChunk mark sc1 KCOMMENT numLines err
        else if ch = CHR ''*'' then
          (case ReadRune sc1 of (ch2, err2, sc2) \<Rightarrow>
             if err2 \<noteq> None \<or> ch2 = CHR ''/'' then mkChunk mark sc2 KCOMMENT numLines err2
             else readMultilineComment mark sc2 numLines)
        else if ch = NL then readMultilineComment mark sc1 (numLines + 1)
        else readMultilineComment mark sc1 numLines)"
  by pat_completeness auto
termination
  by (relation "measure (\<lambda>(mark, sc, n). length (str sc) - pos sc)")
     (auto simp: ReadRune_def split: if_splits)

function readString :: "nat \<Rightarrow> Scanner \<Rightarrow> char \<Rightarrow> panic + (Chunk \<times> error option) \<times> Scanner" where
  "readString mark sc endCh =
     (case ReadRune sc of (ch, err, sc1) \<Rightarrow>
        if err \<noteq> None then Inr (mkChunk mark sc1 KSTRING 0 err)
        else if ch = endCh then Inr (mkChunk mark sc1 KSTRING 0 None)
        else if ch = BSLASH then readString mark (snd (snd (ReadRune sc1))) endCh
        else if ch = NL then Inl (NewlineInString (Pos sc1))
        else readString mark sc1 endCh)"
  by pat_completeness auto
termination
  by (relation "measure (\<lambda>(mark, sc, e). length (str sc) - pos sc)")
     (auto simp: ReadRune_def split: if_splits)

function readMultilineString ::
  "nat \<Rightarrow> Scanner \<Rightarrow> int \<Rightarrow> (Chunk \<times> error option) \<times> Scanner" where
  "readMultilineString mark sc numLines =
     (case ReadRune sc of (ch, err, sc1) \<Rightarrow>
        if err \<noteq> None then mkChunk mark sc1 KSTRING 1 err
        else if ch = BQUOTE then mkChunk mark sc1 KSTRING numLines None
        else if ch = NL then readMultilineString mark sc1 (numLines + 1)
        else readMultilineString mark sc1 numLines)"
  by pat_completeness auto
termination
  by (relation "measure (\<lambda>(mark, sc, n). length (str sc) - pos sc)")
     (auto simp: ReadRune_def split: if_splits)

function readText :: "nat \<Rightarrow> Scanner \<Rightarrow> (Chunk \<times> error option) \<times> Scanner" where
  "readText mark sc =
     (case ReadRune sc of (ch, err, sc1) \<Rightarrow>
        if err \<noteq> None then mkChunk mark sc1 KTEXT 0 err
        else if ch = CHR ''/'' then
          (let slashMark = Mark sc1 in
           case ReadRune sc1 of (ch2, err2, sc2) \<Rightarrow>
             if ch2 = CHR ''*'' \<or> ch2 = CHR ''/'' then
               mkChunk mark (Reset sc2 (slashMark + 1)) KTEXT 0 None
             else readText mark sc2)
        else if ch = BQUOTE \<or> ch = DQUOTE \<or> ch = SQUOTE then
          mkChunk mark (UnreadRune sc1) KTEXT 0 None
        else if ch = NL then mkChunk mark sc1 KTEXT 1 None
        else readText mark sc1)"
  by pat_completeness auto
termination
  by (relation "measure (\<lambda>(mark, sc). length (str sc) - pos sc)")
     (auto simp: ReadRune_def split: if_splits)

definition nextChunk :: "Scanner \<Rightarrow> panic + (Chunk \<times> error option) \<times> Scanner" where
  "nextChunk sc =
     (let mark = Mark sc in
      case ReadRune sc of (ch, err, sc1) \<Rightarrow>
        if err \<noteq> None then Inr ((zeroChunk, err), sc1)
        else if ch = CHR ''/'' then
          (case ReadRune sc1 of (ch2, err2, sc2) \<Rightarrow>
             if err2 \<noteq> None then Inr (mkChunk mark sc2 KCOMMENT 0 err2)
             else if ch2 = CHR ''/'' then Inr (readSingleLineComment mark sc2)
             else if ch2 = CHR ''*'' then Inr (readMultilineComment mark sc2 0)
             else Inr (readText mark sc2))
        else if ch = DQUOTE \<or> ch = SQUOTE then readString mark sc1 ch
        else if ch = BQUOTE then Inr (readMultilineString mark sc1 0)
        else if ch = NL then Inr (mkChunk mark sc1 KTEXT 1 err)
        else Inr (readText mark sc1))"

declare readSingleLineComment.simps [simp del] readMultilineComment.simps [simp del]
  readString.simps [simp del] readMultilineString.simps [simp del] readText.simps [simp del]

section \<open>Progress of the chunker\<close>

text \<open>
  The loop of \<^verbatim>\<open>partition\<close> calls \<^verbatim>\<open>nextChunk\<close> until it reports the end of input. That
  the loop ends rests on what every reader guarantees: it leaves the text alone, never
  moves the read head before the place it started from or beyond the end, and packages
  the text between the mark and the read head.
\<close>

definition wfS :: "Scanner \<Rightarrow> bool" where
  "wfS sc = (pos sc \<le> length (str sc))"

definition unread :: "Scanner \<Rightarrow> nat" where
  "unread sc = length (str sc) - pos sc"

definition post :: "nat \<Rightarrow> Scanner \<Rightarrow> (Chunk \<times> error option) \<times> Scanner \<Rightarrow> bool" where
  "post mark sc r = (case r of ((c, e), sc') \<Rightarrow>
      str sc' = str sc \<and> pos sc \<le> pos sc' \<and> pos sc' \<le> length (str sc) \<and>
      text c = Slice sc' mark \<and> (e = None \<or> Slice sc' mark = []))"

lemma error_EOF [simp]: "(e :: error) = EOF"
  by (cases e) simp

lemma ReadRune_wfS: "wfS sc \<Longrightarrow> ReadRune sc = (ch, err, sc1) \<Longrightarrow> wfS sc1"
  by (auto simp: ReadRune_def wfS_def split: if_splits)

lemma ReadRune_unread: "ReadRune sc = (ch, err, sc1) \<Longrightarrow> unread sc1 \<le> unread sc"
  by (auto simp: ReadRune_def unread_def split: if_splits)

lemma ReadRune_unread_less: "ReadRune sc = (ch, None, sc1) \<Longrightarrow> unread sc1 < unread sc"
  by (auto simp: ReadRune_def unread_def split: if_splits)

lemma post_mkChunk: "wfS sc \<Longrightarrow> post mark sc (mkChunk mark sc k n err)"
  by (cases err) (auto simp: post_def mkChunk_def Let_def wfS_def)

lemma post_ReadRune:
  "ReadRune sc = (ch, err, sc1) \<Longrightarrow> post mark sc1 r \<Longrightarrow> post mark sc r"
  by (auto simp: ReadRune_def post_def split: if_splits)

lemma post_readSingleLineComment: "wfS sc \<Longrightarrow> post mark sc (readSingleLineComment mark sc)"
proof (induction "unread sc" arbitrary: sc rule: less_induct)
  case less
  obtain ch err sc1 where r1: "ReadRune sc = (ch, err, sc1)"
    by (cases "ReadRune sc") auto
  have wf1: "wfS sc1" using less.prems r1 by (rule ReadRune_wfS)
  show ?case
  proof (cases "err \<noteq> None \<or> ch = NL")
    case True
    then have "readSingleLineComment mark sc = mkChunk mark sc1 KCOMMENT 1 err"
      using r1 by (subst readSingleLineComment.simps) simp
    with wf1 r1 show ?thesis by (simp add: post_mkChunk post_ReadRune)
  next
    case False
    then have eq: "readSingleLineComment mark sc = readSingleLineComment mark sc1"
      using r1 by (subst readSingleLineComment.simps) simp
    from False r1 have "unread sc1 < unread sc" by (simp add: ReadRune_unread_less)
    then have "post mark sc1 (readSingleLineComment mark sc1)" using wf1 by (rule less.hyps)
    with r1 eq show ?thesis by (simp add: post_ReadRune)
  qed
qed

lemma post_readMultilineComment: "wfS sc \<Longrightarrow> post mark sc (readMultilineComment mark sc n)"
proof (induction "unread sc" arbitrary: sc n rule: less_induct)
  case less
  obtain ch err sc1 where r1: "ReadRune sc = (ch, err, sc1)"
    by (cases "ReadRune sc") auto
  obtain ch2 err2 sc2 where r2: "ReadRune sc1 = (ch2, err2, sc2)"
    by (cases "ReadRune sc1") auto
  have wf1: "wfS sc1" using less.prems r1 by (rule ReadRune_wfS)
  have wf2: "wfS sc2" using wf1 r2 by (rule ReadRune_wfS)
  have up: "post mark sc2 r \<Longrightarrow> post mark sc r" for r
    using r1 r2 by (blast intro: post_ReadRune)
  show ?case
  proof (cases "err \<noteq> None")
    case True
    then have "readMultilineComment mark sc n = mkChunk mark sc1 KCOMMENT n err"
      using r1 by (subst readMultilineComment.simps) simp
    with wf1 r1 show ?thesis by (simp add: post_mkChunk post_ReadRune)
  next
    case False
    then have lt1: "unread sc1 < unread sc" using r1 by (simp add: ReadRune_unread_less)
    then have IH1: "post mark sc (readMultilineComment mark sc1 m)" for m
      using less.hyps [OF _ wf1] r1 by (blast intro: post_ReadRune)
    from lt1 ReadRune_unread [OF r2] have "unread sc2 < unread sc" by simp
    then have IH2: "post mark sc (readMultilineComment mark sc2 m)" for m
      using less.hyps [OF _ wf2] up by blast
    have mk2: "post mark sc (mkChunk mark sc2 KCOMMENT n err2)"
      using wf2 by (simp add: post_mkChunk up)
    from False r1 r2 IH1 IH2 mk2 show ?thesis
      by (subst readMultilineComment.simps) simp
  qed
qed

lemma post_readMultilineString: "wfS sc \<Longrightarrow> post mark sc (readMultilineString mark sc n)"
proof (induction "unread sc" arbitrary: sc n rule: less_induct)
  case less
  obtain ch err sc1 where r1: "ReadRune sc = (ch, err, sc1)"
    by (cases "ReadRune sc") auto
  have wf1: "wfS sc1" using less.prems r1 by (rule ReadRune_wfS)
  have mk: "post mark sc (mkChunk mark sc1 k m e)" for k m e
    using wf1 r1 by (simp add: post_mkChunk post_ReadRune)
  show ?case
  proof (cases "err \<noteq> None")
    case True
    with r1 mk show ?thesis by (subst readMultilineString.simps) simp
  next
    case False
    then have "unread sc1 < unread sc" using r1 by (simp add: ReadRune_unread_less)
    then have IH1: "post mark sc (readMultilineString mark sc1 m)" for m
      using less.hyps [OF _ wf1] r1 by (blast intro: post_ReadRune)
    from False r1 IH1 mk show ?thesis
      by (subst readMultilineString.simps) simp
  qed
qed

lemma post_readString: "wfS sc \<Longrightarrow> readString mark sc e = Inr r \<Longrightarrow> post mark sc r"
proof (induction "unread sc" arbitrary: sc rule: less_induct)
  case less
  obtain ch err sc1 where r1: "ReadRune sc = (ch, err, sc1)"
    by (cases "ReadRune sc") auto
  obtain ch2 err2 sc2 where r2: "ReadRune sc1 = (ch2, err2, sc2)"
    by (cases "ReadRune sc1") auto
  have wf1: "wfS sc1" using less.prems(1) r1 by (rule ReadRune_wfS)
  have wf2: "wfS sc2" using wf1 r2 by (rule ReadRune_wfS)
  have up: "post mark sc2 r \<Longrightarrow> post mark sc r" for r
    using r1 r2 by (blast intro: post_ReadRune)
  have mk: "post mark sc (mkChunk mark sc1 k m x)" for k m x
    using wf1 r1 by (simp add: post_mkChunk post_ReadRune)
  show ?case
  proof (cases "err \<noteq> None")
    case True
    with r1 mk less.prems(2) show ?thesis by (subst (asm) readString.simps) auto
  next
    case False
    then have lt1: "unread sc1 < unread sc" using r1 by (simp add: ReadRune_unread_less)
    then have IH1: "readString mark sc1 e = Inr r \<Longrightarrow> post mark sc r"
      using less.hyps [OF _ wf1] r1 by (blast intro: post_ReadRune)
    from lt1 ReadRune_unread [OF r2] have "unread sc2 < unread sc" by simp
    then have IH2: "readString mark sc2 e = Inr r \<Longrightarrow> post mark sc r"
      using less.hyps [OF _ wf2] up by blast
    from less.prems(2) False r1 r2 IH1 IH2 mk show ?thesis
      by (subst (asm) readString.simps) (auto split: if_splits)
  qed
qed

lemma post_readText: "wfS sc \<Longrightarrow> post mark sc (readText mark sc)"
proof (induction "unread sc" arbitrary: sc rule: less_induct)
  case less
  obtain ch err sc1 where r1: "ReadRune sc = (ch, err, sc1)"
    by (cases "ReadRune sc") auto
  obtain ch2 err2 sc2 where r2: "ReadRune sc1 = (ch2, err2, sc2)"
    by (cases "ReadRune sc1") auto
  have wf1: "wfS sc1" using less.prems(1) r1 by (rule ReadRune_wfS)
  have wf2: "wfS sc2" using wf1 r2 by (rule ReadRune_wfS)
  have up: "post mark sc2 r \<Longrightarrow> post mark sc r" for r
    using r1 r2 by (blast intro: post_ReadRune)
  have mk: "post mark sc (mkChunk mark sc1 k m x)" for k m x
    using wf1 r1 by (simp add: post_mkChunk post_ReadRune)
  show ?case
  proof (cases "err \<noteq> None")
    case True
    with r1 mk show ?thesis by (subst readText.simps) simp
  next
    case False
    then have e: "err = None" by simp
    have lt1: "unread sc1 < unread sc" using r1 e by (simp add: ReadRune_unread_less)
    then have IH1: "post mark sc (readText mark sc1)"
      using less.hyps [OF _ wf1] r1 by (blast intro: post_ReadRune)
    from lt1 ReadRune_unread [OF r2] have "unread sc2 < unread sc" by simp
    then have IH2: "post mark sc (readText mark sc2)"
      using less.hyps [OF _ wf2] up by blast
    have sc1: "sc1 = sc\<lparr>pos := pos sc + 1\<rparr>" "pos sc < length (str sc)"
      using r1 e by (auto simp: ReadRune_def split: if_splits)
    have un: "post mark sc (mkChunk mark (UnreadRune sc1) k m x)" for k m x
      using sc1 less.prems by (cases x) (auto simp: post_def mkChunk_def Let_def UnreadRune_def wfS_def)
    have rs: "post mark sc (mkChunk mark (Reset sc2 (Mark sc1 + 1)) k m x)" for k m x
      using sc1 less.prems r2
      by (cases x) (auto simp: post_def mkChunk_def Let_def Reset_def Mark_def wfS_def ReadRune_def split: if_splits)
    from e r1 r2 IH1 IH2 mk un rs show ?thesis
      by (subst readText.simps) (simp add: Let_def)
  qed
qed

lemma Slice_Mark:
  "str sc' = str sc \<Longrightarrow> pos sc \<le> length (str sc) \<Longrightarrow>
   Slice sc' (Mark sc) = take (pos sc' - pos sc) (drop (pos sc) (str sc))"
  by (simp add: Slice_def Mark_def Let_def)

lemma nextChunk_eof:
  "length (str sc) \<le> pos sc \<Longrightarrow> nextChunk sc = Inr ((zeroChunk, Some EOF), sc)"
  by (simp add: nextChunk_def ReadRune_def)

lemma nextChunk_post:
  assumes lt: "pos sc < length (str sc)" and nc: "nextChunk sc = Inr ((c, e), sc')"
  shows "str sc' = str sc \<and> pos sc < pos sc' \<and> pos sc' \<le> length (str sc) \<and> e = None \<and>
         text c = take (pos sc' - pos sc) (drop (pos sc) (str sc))"
proof -
  define sc1 where "sc1 = sc\<lparr>pos := pos sc + 1\<rparr>"
  have r1: "ReadRune sc = (str sc ! pos sc, None, sc1)"
    using lt by (simp add: ReadRune_def sc1_def)
  have wf1: "wfS sc1" using lt by (simp add: wfS_def sc1_def)
  obtain ch2 err2 sc2 where r2: "ReadRune sc1 = (ch2, err2, sc2)"
    by (cases "ReadRune sc1") auto
  have wf2: "wfS sc2" using wf1 r2 by (rule ReadRune_wfS)
  have p2: "post m sc2 r \<Longrightarrow> post m sc1 r" for m r
    using r2 by (rule post_ReadRune)
  have "nextChunk sc = Inr r \<Longrightarrow> post (Mark sc) sc1 r" for r
    using r1 r2 wf1 wf2 post_readString [OF wf1, of "Mark sc" _ r]
      p2 [OF post_mkChunk [OF wf2]] p2 [OF post_readSingleLineComment [OF wf2]]
      p2 [OF post_readMultilineComment [OF wf2]] p2 [OF post_readText [OF wf2]]
      post_readMultilineString [OF wf1] post_mkChunk [OF wf1] post_readText [OF wf1]
    by (auto simp: nextChunk_def Let_def split: if_splits)
  from this [OF nc] have "post (Mark sc) sc1 ((c, e), sc')" .
  then have a: "str sc' = str sc" "pos sc < pos sc'" "pos sc' \<le> length (str sc)"
      "text c = Slice sc' (Mark sc)" "e = None \<or> Slice sc' (Mark sc) = []"
    by (auto simp: post_def sc1_def)
  have sl: "Slice sc' (Mark sc) = take (pos sc' - pos sc) (drop (pos sc) (str sc))"
    using a(1) lt by (simp add: Slice_Mark)
  have "Slice sc' (Mark sc) \<noteq> []" using a(2) lt by (simp add: sl)
  with a sl show ?thesis by simp
qed

lemma nextChunk_progress:
  assumes "nextChunk sc = Inr ((c, None), sc')"
  shows "unread sc' < unread sc"
proof (cases "pos sc < length (str sc)")
  case True
  from nextChunk_post [OF True assms] True show ?thesis by (auto simp: unread_def)
next
  case False
  with assms show ?thesis by (simp add: nextChunk_eof)
qed

section \<open>The chunk sequence\<close>

text \<open>
  Calling \<^verbatim>\<open>nextChunk\<close> until it reports \<^verbatim>\<open>io.EOF\<close>, as the first loop of \<^verbatim>\<open>partition\<close>
  does, and collecting the chunks. A chunk that comes with an error is dropped, as the
  loop drops it; a panic of the chunker ends the sequence.
\<close>

function allChunks :: "Scanner \<Rightarrow> panic + Chunk list" where
  "allChunks scanner =
     (case nextChunk scanner of
        Inl p \<Rightarrow> Inl p
      | Inr ((chunk, err), scanner') \<Rightarrow>
          (case err of
             Some e \<Rightarrow> if e = EOF then Inr [] else Inl (ReadError e)
           | None \<Rightarrow>
               (case allChunks scanner' of
                  Inl p \<Rightarrow> Inl p
                | Inr cs \<Rightarrow> Inr (chunk # cs))))"
  by pat_completeness auto
termination
  by (relation "measure unread") (auto simp: nextChunk_progress)

declare allChunks.simps [simp del]

text \<open>
  The places of the text at which the loop calls \<^verbatim>\<open>nextChunk\<close>: the beginning, and the
  read head after every chunk that came without an error.
\<close>

function chunkStarts :: "Scanner \<Rightarrow> nat list" where
  "chunkStarts scanner =
     pos scanner #
     (case nextChunk scanner of
        Inl p \<Rightarrow> []
      | Inr ((chunk, err), scanner') \<Rightarrow>
          (case err of Some e \<Rightarrow> [] | None \<Rightarrow> chunkStarts scanner'))"
  by pat_completeness auto
termination
  by (relation "measure unread") (auto simp: nextChunk_progress)

declare chunkStarts.simps [simp del]

section \<open>The table of standard packages\<close>

text \<open>
  \<^verbatim>\<open>init\<close> fills \<^verbatim>\<open>builtinPkgs\<close>: every path of the list is stored under what follows its
  last slash (the whole path when it has none). A later path with the same short name
  would replace an earlier one, so the table is read from the end of the list.
\<close>

definition pkgs :: "string list" where
  "pkgs =
    [''hash/adler32'', ''crypto/aes'', ''encoding/ascii85'', ''encoding/asn1'', ''go/ast'',
     ''sync/atomic'', ''encoding/base32'', ''encoding/base64'', ''math/big'',
     ''encoding/binary'', ''bufio'', ''go/build'', ''bytes'', ''compress/bzip2'',
     ''net/http/cgi'', ''runtime/cgo'', ''crypto/cipher'', ''math/cmplx'', ''image/color'',
     ''hash/crc32'', ''hash/crc64'', ''crypto'', ''encoding/csv'', ''runtime/debug'',
     ''crypto/des'', ''go/doc'', ''image/draw'', ''database/sql/driver'', ''crypto/dsa'',
     ''debug/dwarf'', ''crypto/ecdsa'', ''debug/elf'', ''crypto/elliptic'', ''errors'',
     ''os/exec'', ''expvar'', ''net/http/fcgi'', ''path/filepath'', ''flag'',
     ''compress/flate'', ''fmt'', ''hash/fnv'', ''image/gif'', ''encoding/gob'',
     ''debug/gosym'', ''compress/gzip'', ''hash'', ''container/heap'', ''encoding/hex'',
     ''crypto/hmac'', ''html'', ''net/http'', ''net/http/httputil'', ''image'', ''io'',
     ''io/ioutil'', ''image/jpeg'', ''encoding/json'', ''net/rpc/jsonrpc'',
     ''container/list'', ''log'', ''compress/lzw'', ''debug/macho'', ''net/mail'',
     ''math'', ''crypto/md5'', ''mime'', ''mime/multipart'', ''net'', ''os'',
     ''text/template/parse'', ''go/parser'', ''path'', ''debug/pe'', ''encoding/pem'',
     ''crypto/x509/pkix'', ''image/png'', ''net/http/pprof'', ''go/printer'',
     ''math/rand'', ''crypto/rc4'', ''reflect'', ''regexp'', ''container/ring'',
     ''net/rpc'', ''crypto/rsa'', ''runtime'', ''text/scanner'', ''crypto/sha1'',
     ''crypto/sha256'', ''crypto/sha512'', ''os/signal'', ''net/smtp'', ''sort'',
     ''database/sql'', ''strconv'', ''strings'', ''crypto/subtle'', ''index/suffixarray'',
     ''sync'', ''regexp/syntax'', ''syscall'', ''log/syslog'', ''text/tabwriter'',
     ''archive/tar'', ''text/template'', ''net/textproto'', ''time'', ''crypto/tls'',
     ''go/token'', ''unicode'', ''unsafe'', ''net/url'', ''os/user'', ''unicode/utf16'',
     ''unicode/utf8'', ''crypto/x509'', ''encoding/xml'', ''archive/zip'',
     ''compress/zlib'']"

definition shortName :: "string \<Rightarrow> string" where
  "shortName pkg = rev (takeWhile (\<lambda>c. c \<noteq> CHR ''/'') (rev pkg))"

definition builtinPkgs :: "string \<Rightarrow> string option" where
  "builtinPkgs = map_of (rev (map (\<lambda>pkg. (shortName pkg, pkg)) pkgs))"

section \<open>The state of the partition\<close>

text \<open>
  A Go \<^verbatim>\<open>map[string]bool\<close> is an association list with one entry for a key
  (\<^const>\<open>AList.update\<close> replaces, \<^const>\<open>AList.delete\<close> removes); reading an absent key
  gives \<^verbatim>\<open>false\<close>. Go iterates over a map in no fixed order; where the code iterates, the
  model takes the order of the list. The chunks of the lines are a map from line numbers.
\<close>

record State =
  lineNum :: int
  pkgsToImport :: "(string \<times> bool) list"
  isTopLevel :: bool
  brackOpenAt :: int
  brackCount :: int
  closingCh :: char
  chunks :: "int \<Rightarrow> Chunk list option"

definition addChunk :: "State \<Rightarrow> Chunk \<Rightarrow> State" where
  "addChunk state chunk =
     (let cs = (case chunks state (lineNum state) of None \<Rightarrow> [] | Some cs \<Rightarrow> cs)
      in state\<lparr>chunks := (chunks state)(lineNum state \<mapsto> cs @ [chunk]),
               lineNum := lineNum state + numNL chunk\<rparr>)"

text \<open>The first loop of \<^verbatim>\<open>partition\<close>.\<close>

function chunkLoop :: "Scanner \<Rightarrow> State \<Rightarrow> panic + State" where
  "chunkLoop scanner state =
     (case nextChunk scanner of
        Inl p \<Rightarrow> Inl p
      | Inr ((chunk, err), scanner') \<Rightarrow>
          (case err of
             Some e \<Rightarrow> if e = EOF then Inr state else Inl (ReadError e)
           | None \<Rightarrow> chunkLoop scanner' (addChunk state chunk)))"
  by pat_completeness auto
termination
  by (relation "measure (\<lambda>(sc, st). unread sc)") (auto simp: nextChunk_progress)

declare chunkLoop.simps [simp del]

section \<open>Import inference\<close>

text \<open>
  \<^verbatim>\<open>pkgPat\<close> is the regular expression \<^verbatim>\<open>(?m)\b[a-z]\w+\.\<close>, and \<^verbatim>\<open>FindAllString\<close> gives
  its successive leftmost matches. The regular-expression library is not part of the
  repository; its search is written out for this pattern. A match starts at a lower-case
  letter that no word character precedes; \<^verbatim>\<open>\w+\<close> then takes every word character that
  follows (giving any back would leave a word character where the dot must stand), at
  least one, and a dot must come next. The search goes on after the dot of a match, and
  at the next character when there is none. The flag tells whether the character before
  is a word character.
\<close>

definition inRange :: "char \<Rightarrow> char \<Rightarrow> char \<Rightarrow> bool" where
  "inRange lo hi c = ((of_char lo :: nat) \<le> of_char c \<and> (of_char c :: nat) \<le> of_char hi)"

definition isWord :: "char \<Rightarrow> bool" where
  "isWord c = (inRange (CHR ''0'') (CHR ''9'') c \<or> inRange (CHR ''A'') (CHR ''Z'') c \<or>
               c = CHR ''_'' \<or> inRange (CHR ''a'') (CHR ''z'') c)"

definition isLower :: "char \<Rightarrow> bool" where
  "isLower c = inRange (CHR ''a'') (CHR ''z'') c"

function findPkgs :: "bool \<Rightarrow> string \<Rightarrow> string list" where
  "findPkgs prevWord [] = []"
| "findPkgs prevWord (c # cs) =
     (if \<not> prevWord \<and> isLower c then
        (let w = takeWhile isWord cs; rest = dropWhile isWord cs
         in if w \<noteq> [] \<and> rest \<noteq> [] \<and> hd rest = CHR ''.''
            then (c # w @ ''.'') # findPkgs False (tl rest)
            else findPkgs True cs)
      else findPkgs (isWord c) cs)"
  by pat_completeness auto
termination
proof (relation "measure (\<lambda>(b, s). length s)")
  fix cs :: string
  have "length (tl (dropWhile isWord cs)) \<le> length (dropWhile isWord cs)" by simp
  also have "\<dots> \<le> length cs" by (rule length_dropWhile_le)
  finally show "\<And>prevWord c x xa.
       \<not> prevWord \<and> isLower c \<Longrightarrow> x = takeWhile isWord cs \<Longrightarrow> xa = dropWhile isWord cs \<Longrightarrow>
       x \<noteq> [] \<and> xa \<noteq> [] \<and> hd xa = CHR ''.'' \<Longrightarrow>
       ((False, tl xa), prevWord, c # cs) \<in> measure (\<lambda>(b, s). length s)"
    by simp
qed auto

definition inferPackages :: "string \<Rightarrow> (string \<times> bool) list \<Rightarrow> (string \<times> bool) list" where
  "inferPackages code m =
     foldl (\<lambda>m pkg.
              (case builtinPkgs (butlast pkg) of
                 Some importPkg \<Rightarrow> AList.update importPkg True m
               | None \<Rightarrow> m))
       m (findPkgs False code)"

section \<open>Lines\<close>

text \<open>\<^verbatim>\<open>fmt.Sprintf("%d", n)\<close>: the decimal digits of an integer.\<close>

definition digit :: "nat \<Rightarrow> char" where
  "digit n = ''0123456789'' ! n"

fun showNat :: "nat \<Rightarrow> string" where
  "showNat n = (if n < 10 then [digit n] else showNat (n div 10) @ [digit (n mod 10)])"

declare showNat.simps [simp del]

definition showInt :: "int \<Rightarrow> string" where
  "showInt i = (if i < 0 then CHR ''-'' # showNat (nat (- i)) else showNat (nat i))"

definition addLine :: "int \<Rightarrow> string \<Rightarrow> string \<Rightarrow> string" where
  "addLine lnum code line =
     (if length code = 0 \<or> last code = NL
      then code @ ''//line :'' @ showInt lnum @ [NL] @ line
      else code @ line)"

definition extractTxt :: "Chunk list \<Rightarrow> string" where
  "extractTxt cs = foldl (\<lambda>line chunk. if kind chunk = KTEXT then line @ text chunk else line) [] cs"

definition HasPrefix :: "string \<Rightarrow> string \<Rightarrow> bool" where
  "HasPrefix s p = (take (length p) s = p)"

text \<open>\<^verbatim>\<open>strings.TrimLeft(s, " \t")\<close> drops leading blanks and tabs.\<close>

definition TrimLeftBlank :: "string \<Rightarrow> string" where
  "TrimLeftBlank s = dropWhile (\<lambda>c. c = CHR '' '' \<or> c = CHR 0x09) s"

text \<open>
  \<^verbatim>\<open>strings.TrimSpace\<close> drops the leading and the trailing runes that \<^verbatim>\<open>unicode.IsSpace\<close>
  accepts. A string is its bytes, so the white-space runes are given by their UTF-8
  encodings: tab, line feed, vertical tab, form feed, carriage return, blank, U+0085,
  U+00A0, U+1680, U+2000 to U+200A, U+2028, U+2029, U+202F, U+205F and U+3000. An
  encoding is a lead byte followed by continuation bytes, so a rune is read at the front
  of a string exactly when its encoding is a prefix, and at the end exactly when its
  encoding is a suffix.
\<close>

definition spaceRunes :: "string list" where
  "spaceRunes =
    [[CHR 0x09], [CHR 0x0A], [CHR 0x0B], [CHR 0x0C], [CHR 0x0D], [CHR 0x20],
     [CHR 0xC2, CHR 0x85], [CHR 0xC2, CHR 0xA0], [CHR 0xE1, CHR 0x9A, CHR 0x80],
     [CHR 0xE2, CHR 0x80, CHR 0x80], [CHR 0xE2, CHR 0x80, CHR 0x81],
     [CHR 0xE2, CHR 0x80, CHR 0x82], [CHR 0xE2, CHR 0x80, CHR 0x83],
     [CHR 0xE2, CHR 0x80, CHR 0x84], [CHR 0xE2, CHR 0x80, CHR 0x85],
     [CHR 0xE2, CHR 0x80, CHR 0x86], [CHR 0xE2, CHR 0x80, CHR 0x87],
     [CHR 0xE2, CHR 0x80, CHR 0x88], [CHR 0xE2, CHR 0x80, CHR 0x89],
     [CHR 0xE2, CHR 0x80, CHR 0x8A], [CHR 0xE2, CHR 0x80, CHR 0xA8],
     [CHR 0xE2, CHR 0x80, CHR 0xA9], [CHR 0xE2, CHR 0x80, CHR 0xAF],
     [CHR 0xE2, CHR 0x81, CHR 0x9F], [CHR 0xE3, CHR 0x80, CHR 0x80]]"

text \<open>The width in bytes of the rune of the list that the string starts with, or 0.\<close>

definition runeWidth :: "string list \<Rightarrow> string \<Rightarrow> nat" where
  "runeWidth rs s = (case find (HasPrefix s) rs of Some e \<Rightarrow> length e | None \<Rightarrow> 0)"

lemma runeWidth_Nil: "runeWidth rs [] = 0"
  by (auto simp: runeWidth_def HasPrefix_def find_Some_iff split: option.splits)

function trimRunes :: "string list \<Rightarrow> string \<Rightarrow> string" where
  "trimRunes rs s = (if runeWidth rs s = 0 then s else trimRunes rs (drop (runeWidth rs s) s))"
  by pat_completeness auto
termination
proof (relation "measure (\<lambda>(rs, s). length s)")
  fix rs :: "string list" and s :: string
  assume "runeWidth rs s \<noteq> 0"
  then have "0 < runeWidth rs s" "s \<noteq> []" using runeWidth_Nil [of rs] by auto
  then show "((rs, drop (runeWidth rs s) s), rs, s) \<in> measure (\<lambda>(rs, s). length s)"
    by simp
qed simp

declare trimRunes.simps [simp del]

lemma trimRunes_Nil: "trimRunes rs [] = []"
  by (subst trimRunes.simps) (simp add: runeWidth_Nil)

lemma trimRunes_Cons:
  "trimRunes rs (c # cs) =
     (if runeWidth rs (c # cs) = 0 then c # cs
      else trimRunes rs (drop (runeWidth rs (c # cs)) (c # cs)))"
  by (subst trimRunes.simps) simp

definition TrimSpace :: "string \<Rightarrow> string" where
  "TrimSpace s = rev (trimRunes (map rev spaceRunes) (rev (trimRunes spaceRunes s)))"

text \<open>
  \<^verbatim>\<open>processLine\<close> changes the state and returns the line. The bracket that opens a block
  is recorded with \<^verbatim>\<open>state.lineNum\<close>, as the source has it, not with the number of the
  line being processed.
\<close>

definition processLine :: "int \<Rightarrow> State \<Rightarrow> string \<times> State" where
  "processLine lnum state =
     (case chunks state lnum of
        None \<Rightarrow> ([], state)
      | Some cs \<Rightarrow>
          (let state1 = state\<lparr>pkgsToImport :=
                 foldl (\<lambda>m chunk. if kind chunk = KTEXT then inferPackages (text chunk) m else m)
                   (pkgsToImport state) cs\<rparr>;
               l = TrimLeftBlank (extractTxt cs);
               state2 =
                 (if length l > 0 then
                    (if hd l = closingCh state1 then
                       (let state' = state1\<lparr>brackCount := brackCount state1 - 1\<rparr>
                        in if brackCount state' = 0
                           then state'\<lparr>closingCh := CHR '' '', brackOpenAt := 0\<rparr>
                           else state')
                     else if brackCount state1 = 0 then
                       state1\<lparr>isTopLevel := (HasPrefix l ''func '' \<or> HasPrefix l ''type '' \<or>
                                               HasPrefix l ''import '')\<rparr>
                     else state1)
                  else state1);
               l' = TrimSpace l;
               state3 =
                 (if length l' > 0 then
                    (if last l' = CHR ''{'' then
                       (let state' = state2\<lparr>closingCh := CHR ''}''\<rparr>;
                            state'' = (if brackCount state' = 0
                                       then state'\<lparr>brackOpenAt := lineNum state'\<rparr> else state')
                        in state''\<lparr>brackCount := brackCount state'' + 1\<rparr>)
                     else if last l' = CHR ''('' then
                       (let state' = state2\<lparr>closingCh := CHR '')''\<rparr>;
                            state'' = (if brackCount state' = 0
                                       then state'\<lparr>brackOpenAt := lineNum state'\<rparr> else state')
                        in state''\<lparr>brackCount := brackCount state'' + 1\<rparr>)
                     else state2)
                  else state2)
           in (foldl (\<lambda>retLine chunk. retLine @ text chunk) [] cs, state3)))"

section \<open>Partition\<close>

definition initState :: State where
  "initState = \<lparr>lineNum = 1, pkgsToImport = [], isTopLevel = False, brackOpenAt = 0,
                 brackCount = 0, closingCh = CHR '' '', chunks = Map.empty\<rparr>"

text \<open>One round of the second loop of \<^verbatim>\<open>partition\<close>, on the state and the two texts.\<close>

definition lineStep :: "State \<times> string \<times> string \<Rightarrow> int \<Rightarrow> State \<times> string \<times> string" where
  "lineStep acc lnum =
     (case acc of (state, topLevel, nonTopLevel) \<Rightarrow>
        (case processLine lnum state of (line, state') \<Rightarrow>
           if isTopLevel state' then (state', addLine lnum topLevel line, nonTopLevel)
           else (state', topLevel, addLine lnum nonTopLevel line)))"

definition partition_code :: "string \<Rightarrow> panic + string \<times> string \<times> (string \<times> bool) list" where
  "partition_code code =
     (case chunkLoop (NewScanner code) initState of
        Inl p \<Rightarrow> Inl p
      | Inr state \<Rightarrow>
          (case foldl lineStep (state, [], []) [1..lineNum state] of
             (state', topLevel, nonTopLevel) \<Rightarrow>
               if brackCount state' > 0
               then Inl (BracketNotClosed (brackOpenAt state') (brackCount state'))
               else Inr (topLevel, nonTopLevel, pkgsToImport state')))"

section \<open>Alias expansion\<close>

text \<open>
  \<^verbatim>\<open>expandAliases\<close> replaces every match of \<^verbatim>\<open>(?m)^\s*p +([^\s=:(].*)$\<close> by \<^verbatim>\<open>__p($1)\<close>, then
  the same for \<^verbatim>\<open>t\<close>. The search of the regular-expression library is written out for
  this pattern: a match starts at the beginning of the text or after a newline;
  \<^verbatim>\<open>\s*\<close> takes all white space there (\<^verbatim>\<open>\s\<close> is tab, line feed, form feed, carriage
  return and blank, so it runs over newlines), then come the letter, at least one blank,
  a character that is neither white space nor one of \<^verbatim>\<open>=:(\<close>, and the rest of the line.
  \<^verbatim>\<open>matchAlias\<close> gives the captured text and what follows the match.
\<close>

definition reSpace :: "char \<Rightarrow> bool" where
  "reSpace c = (c = CHR 0x09 \<or> c = NL \<or> c = CHR 0x0C \<or> c = CHR 0x0D \<or> c = CHR '' '')"

definition matchAlias :: "char \<Rightarrow> string \<Rightarrow> (string \<times> string) option" where
  "matchAlias a s =
     (case dropWhile reSpace s of
        [] \<Rightarrow> None
      | c # s2 \<Rightarrow>
          if c \<noteq> a then None
          else (case s2 of
                  [] \<Rightarrow> None
                | b # _ \<Rightarrow>
                    if b \<noteq> CHR '' '' then None
                    else (case dropWhile (\<lambda>x. x = CHR '' '') s2 of
                            [] \<Rightarrow> None
                          | d # s4 \<Rightarrow>
                              if reSpace d \<or> d = CHR ''='' \<or> d = CHR '':'' \<or> d = CHR ''(''
                              then None
                              else Some (d # takeWhile (\<lambda>x. x \<noteq> NL) s4,
                                         dropWhile (\<lambda>x. x \<noteq> NL) s4))))"

lemma matchAlias_shorter: "matchAlias a s = Some (cap, rest) \<Longrightarrow> length rest < length s"
proof -
  have d: "length (dropWhile P xs) \<le> length xs" for P and xs :: string
    by (rule length_dropWhile_le)
  assume "matchAlias a s = Some (cap, rest)"
  then obtain c s2 d' s4 where
    1: "dropWhile reSpace s = c # s2" and 2: "dropWhile (\<lambda>x. x = CHR '' '') s2 = d' # s4"
    and 3: "rest = dropWhile (\<lambda>x. x \<noteq> NL) s4"
    by (auto simp: matchAlias_def split: list.splits if_splits)
  have "length rest \<le> length s4" unfolding 3 by (rule d)
  also have "length s4 < length (dropWhile (\<lambda>x. x = CHR '' '') s2)" unfolding 2 by simp
  also have "\<dots> \<le> length s2" by (rule d)
  also have "length s2 < length (dropWhile reSpace s)" unfolding 1 by simp
  also have "\<dots> \<le> length s" by (rule d)
  finally show ?thesis .
qed

text \<open>The flag tells whether the place is the beginning of a line.\<close>

function expandAll :: "char \<Rightarrow> bool \<Rightarrow> string \<Rightarrow> string" where
  "expandAll a atStart [] = []"
| "expandAll a atStart (c # cs) =
     (case (if atStart then matchAlias a (c # cs) else None) of
        Some (cap, rest) \<Rightarrow> ''__'' @ [a] @ ''('' @ cap @ '')'' @ expandAll a False rest
      | None \<Rightarrow> c # expandAll a (c = NL) cs)"
  by pat_completeness auto
termination
  by (relation "measure (\<lambda>(a, b, s). length s)")
     (auto split: if_splits dest: matchAlias_shorter)

definition expandAliases :: "string \<Rightarrow> string" where
  "expandAliases code = expandAll (CHR ''t'') True (expandAll (CHR ''p'') True code)"

section \<open>Building and running\<close>

abbreviation TAB :: char where "TAB \<equiv> CHR 0x09"

definition buildMain :: "string \<Rightarrow> string \<Rightarrow> (string \<times> bool) list \<Rightarrow> string" where
  "buildMain topLevel nonTopLevel m =
     (let imports = foldl (\<lambda>imports k. imports @ ''import '' @ [DQUOTE] @ k @ [DQUOTE, NL]) []
                      (map fst m)
      in [NL] @ ''package main'' @ [NL] @ imports @ [NL] @ topLevel @ [NL] @
         ''func main() {'' @ [NL] @ nonTopLevel @ [NL] @ ''}'' @ [NL] @ [NL] @
         ''func __p(values ...interface{}){'' @ [NL] @
         [TAB] @ ''for _, v := range values {'' @ [NL] @
         ''             fmt.Printf('' @ [DQUOTE] @ ''%+v'' @ [BSLASH] @ ''n'' @ [DQUOTE] @ '', v)'' @ [NL] @
         [TAB] @ ''}'' @ [NL] @ ''}'' @ [NL] @
         ''func __t(values ...interface{}){'' @ [NL] @
         [TAB] @ ''for _, v := range values {'' @ [NL] @
         ''             fmt.Printf('' @ [DQUOTE] @ ''%T'' @ [BSLASH] @ ''n'' @ [DQUOTE] @ '', v)'' @ [NL] @
         [TAB] @ ''}'' @ [NL] @ ''}'' @ [NL])"

text \<open>
  \<^verbatim>\<open>repairImports\<close> searches the error text for
  \<^verbatim>\<open>(\w+) redeclared as imported package name|imported and not used: "(\w+)"\<close>.
  \<^verbatim>\<open>repairMatches\<close> gives the two groups of every match, from left to right: at a
  place the first alternative is tried before the second, and \<^verbatim>\<open>\w+\<close> takes every word
  character there is.
\<close>

definition redeclared :: string where
  "redeclared = '' redeclared as imported package name''"

definition notUsed :: string where
  "notUsed = ''imported and not used: '' @ [DQUOTE]"

function repairMatches :: "string \<Rightarrow> (string \<times> string) list" where
  "repairMatches [] = []"
| "repairMatches (c # cs) =
     (let s = c # cs; w = takeWhile isWord s; r = dropWhile isWord s
      in if w \<noteq> [] \<and> HasPrefix r redeclared
         then (w, []) # repairMatches (drop (length redeclared) r)
         else if HasPrefix s notUsed then
           (let s2 = drop (length notUsed) s; w2 = takeWhile isWord s2; r2 = dropWhile isWord s2
            in if w2 \<noteq> [] \<and> r2 \<noteq> [] \<and> hd r2 = DQUOTE
               then ([], w2) # repairMatches (tl r2)
               else repairMatches cs)
         else repairMatches cs)"
  by pat_completeness auto
termination
proof (relation "measure length")
  fix c :: char and cs :: string
  have d: "length (dropWhile P xs) \<le> length xs" for P and xs :: string
    by (rule length_dropWhile_le)
  show "\<And>x xa xb. x = c # cs \<Longrightarrow> xa = takeWhile isWord x \<Longrightarrow> xb = dropWhile isWord x \<Longrightarrow>
       xa \<noteq> [] \<and> HasPrefix xb redeclared \<Longrightarrow>
       (drop (length redeclared) xb, c # cs) \<in> measure length"
    using d [of isWord "c # cs"] by (auto simp: redeclared_def)
  show "\<And>x xa xb xc xd xe. x = c # cs \<Longrightarrow> xa = takeWhile isWord x \<Longrightarrow> xb = dropWhile isWord x \<Longrightarrow>
       \<not> (xa \<noteq> [] \<and> HasPrefix xb redeclared) \<Longrightarrow> HasPrefix x notUsed \<Longrightarrow>
       xc = drop (length notUsed) x \<Longrightarrow> xd = takeWhile isWord xc \<Longrightarrow> xe = dropWhile isWord xc \<Longrightarrow>
       xd \<noteq> [] \<and> xe \<noteq> [] \<and> hd xe = DQUOTE \<Longrightarrow> (tl xe, c # cs) \<in> measure length"
    using d [of isWord "drop (length notUsed) (c # cs)"] by (auto simp: notUsed_def)
qed auto

declare repairMatches.simps [simp del]

definition lookupBool :: "(string \<times> bool) list \<Rightarrow> string \<Rightarrow> bool" where
  "lookupBool m k = (case map_of m k of Some b \<Rightarrow> b | None \<Rightarrow> False)"

text \<open>One round of the loop of \<^verbatim>\<open>repairImports\<close>, on \<^verbatim>\<open>dupsDetected\<close>, \<^verbatim>\<open>pkg\<close> and the map.\<close>

definition repairStep ::
  "bool \<times> string \<times> (string \<times> bool) list \<Rightarrow> string \<times> string \<Rightarrow> bool \<times> string \<times> (string \<times> bool) list" where
  "repairStep acc match =
     (case acc of (dupsDetected, pkg, m) \<Rightarrow>
        (let pkg' = (if fst match \<noteq> [] then fst match
                     else if snd match \<noteq> [] then snd match else pkg)
         in if lookupBool m pkg' then (True, pkg', AList.delete pkg' m)
            else (dupsDetected, pkg', m)))"

definition repairImports :: "string \<Rightarrow> (string \<times> bool) list \<Rightarrow> bool \<times> (string \<times> bool) list" where
  "repairImports err m =
     (case foldl repairStep (False, [], m) (repairMatches err) of
        (dupsDetected, pkg, m') \<Rightarrow> (dupsDetected, m'))"

text \<open>
  \<^verbatim>\<open>run\<close> writes the source to a file and runs the Go toolchain on it. The file system
  and the toolchain are outside the program: \<^verbatim>\<open>run\<close> is a parameter that, from the state
  of the world and a source text, gives the output and the error text (or the panic of
  \<^verbatim>\<open>save\<close>) and the new state of the world. Every call of \<^verbatim>\<open>run\<close> in the source is an
  application of the parameter to the world that the call before it left.
\<close>

type_synonym 'w runner = "'w \<Rightarrow> string \<Rightarrow> (panic + string \<times> string) \<times> 'w"

definition buildAndExec ::
  "'w runner \<Rightarrow> 'w \<Rightarrow> string \<Rightarrow> string \<Rightarrow> (string \<times> bool) list \<Rightarrow>
   (panic + string \<times> string) \<times> 'w" where
  "buildAndExec run w topLevel nonTopLevel m =
     (let m1 = AList.update ''fmt'' True m;
          src = buildMain topLevel nonTopLevel m1
      in case run w src of
           (Inl p, w1) \<Rightarrow> (Inl p, w1)
         | (Inr (out, err), w1) \<Rightarrow>
             if err \<noteq> [] then
               (case repairImports err m1 of
                  (dupsDetected, m2) \<Rightarrow>
                    if dupsDetected then run w1 (buildMain topLevel nonTopLevel m2)
                    else (Inr (out, err), w1))
             else (Inr (out, err), w1))"

section \<open>Eval\<close>

text \<open>
  \<^verbatim>\<open>regexp.MatchString(`^\s*package `, code)\<close>: white space from the beginning of the
  text, then the word and a blank.
\<close>

definition hasPackageDecl :: "string \<Rightarrow> bool" where
  "hasPackageDecl code = HasPrefix (dropWhile reSpace code) ''package ''"

text \<open>
  The conversion \<^verbatim>\<open>string(n)\<close> of an integer: the UTF-8 encoding of the code point \<open>n\<close>,
  and that of U+FFFD for a surrogate or a number beyond U+10FFFF.
\<close>

definition runeString :: "nat \<Rightarrow> string" where
  "runeString n =
     (if n < 0x80 then [char_of n]
      else if n < 0x800 then [char_of (0xC0 + n div 64), char_of (0x80 + n mod 64)]
      else if (0xD800 \<le> n \<and> n < 0xE000) \<or> 0x10FFFF < n then [CHR 0xEF, CHR 0xBF, CHR 0xBD]
      else if n < 0x10000 then
        [char_of (0xE0 + n div 4096), char_of (0x80 + n div 64 mod 64), char_of (0x80 + n mod 64)]
      else
        [char_of (0xF0 + n div 262144), char_of (0x80 + n div 4096 mod 64),
         char_of (0x80 + n div 64 mod 64), char_of (0x80 + n mod 64)])"

text \<open>
  What \<^verbatim>\<open>%v\<close> prints for the value of a panic. The message for a newline in a literal
  ends with \<^verbatim>\<open>string(scanner.Pos())\<close>.
\<close>

definition panicText :: "panic \<Rightarrow> string" where
  "panicText p =
     (case p of
        NewlineInString n \<Rightarrow> ''Newline in string @ '' @ runeString n
      | BracketNotClosed openAt cnt \<Rightarrow>
          showInt openAt @ '': Bracket or paren not closed. '' @ showInt cnt
      | ReadError e \<Rightarrow> ''EOF''
      | Unable msg \<Rightarrow> msg)"

text \<open>The deferred function of \<^verbatim>\<open>Eval\<close> turns a panic into an empty output and an error text.\<close>

definition recovered :: "panic \<Rightarrow> string \<times> string" where
  "recovered p = ([], ''1:'' @ panicText p)"

definition Eval :: "'w runner \<Rightarrow> 'w \<Rightarrow> string \<Rightarrow> (string \<times> string) \<times> 'w" where
  "Eval run w code =
     (if hasPackageDecl code then
        (case run w code of
           (Inl p, w1) \<Rightarrow> (recovered p, w1)
         | (Inr r, w1) \<Rightarrow> (r, w1))
      else
        (case partition_code (expandAliases code) of
           Inl p \<Rightarrow> (recovered p, w)
         | Inr (topLevel, nonTopLevel, imports) \<Rightarrow>
             (case buildAndExec run w topLevel nonTopLevel imports of
                (Inl p, w1) \<Rightarrow> (recovered p, w1)
              | (Inr r, w1) \<Rightarrow> (r, w1))))"

section \<open>Notions for the statements\<close>

text \<open>
  The characters after an opening quote \<open>q\<close> that leave the literal open and unbroken:
  none of them is the quote or a newline, except the character right after a backslash,
  which is skipped whatever it is. A newline that follows such characters is a raw
  newline inside the literal.
\<close>

fun rawBody :: "char \<Rightarrow> string \<Rightarrow> bool" where
  "rawBody q [] = True"
| "rawBody q (c # cs) =
     (if c = q then False
      else if c = BSLASH then (case cs of [] \<Rightarrow> False | d # ds \<Rightarrow> rawBody q ds)
      else c \<noteq> NL \<and> rawBody q cs)"

text \<open>The white space of ASCII.\<close>

definition isSpace :: "char \<Rightarrow> bool" where
  "isSpace c = (c = CHR 0x09 \<or> c = NL \<or> c = CHR 0x0B \<or> c = CHR 0x0C \<or> c = CHR 0x0D \<or> c = CHR '' '')"

text \<open>
  A runner that keeps, in the world, the journal of its calls: every application adds the
  source it was given. The journal tells how often \<^verbatim>\<open>run\<close> was called, and on what.
\<close>

definition logged :: "'w runner \<Rightarrow> ('w \<times> string list) runner" where
  "logged run = (\<lambda>(w, journal) src. case run w src of (r, w') \<Rightarrow> (r, (w', journal @ [src])))"

text \<open>The bracket state is consistent: the three fields agree on whether a block is open,
  and line numbers start at 1.\<close>

definition brackInv :: "State \<Rightarrow> bool" where
  "brackInv st =
     ((brackCount st = 0) = (closingCh st = CHR '' '') \<and>
      (brackCount st = 0) = (brackOpenAt st = 0) \<and> 0 \<le> brackCount st \<and> 1 \<le> lineNum st)"

text \<open>The text of the \<^verbatim>\<open>TEXT\<close> chunks of a line; empty for a line without chunks.\<close>

definition lineTxt :: "State \<Rightarrow> int \<Rightarrow> string" where
  "lineTxt st n = (case chunks st n of None \<Rightarrow> [] | Some cs \<Rightarrow> extractTxt cs)"

text \<open>The canonical paths that the qualifiers matched in a text stand for.\<close>

definition inferred :: "string \<Rightarrow> string set" where
  "inferred code = {p. \<exists>pkg \<in> set (findPkgs False code). builtinPkgs (butlast pkg) = Some p}"

text \<open>The body of the loop of \<^verbatim>\<open>inferPackages\<close>, and of the loop of \<^verbatim>\<open>processLine\<close> over it.\<close>

definition inferStep :: "(string \<times> bool) list \<Rightarrow> string \<Rightarrow> (string \<times> bool) list" where
  "inferStep m pkg =
     (case builtinPkgs (butlast pkg) of Some importPkg \<Rightarrow> AList.update importPkg True m | None \<Rightarrow> m)"

definition inferChunk :: "(string \<times> bool) list \<Rightarrow> Chunk \<Rightarrow> (string \<times> bool) list" where
  "inferChunk m chunk = (if kind chunk = KTEXT then inferPackages (text chunk) m else m)"

text \<open>The packages that the \<^verbatim>\<open>TEXT\<close> chunks of a list refer to.\<close>

definition chunkPkgs :: "Chunk list \<Rightarrow> string set" where
  "chunkPkgs cs = (\<Union>c \<in> {c \<in> set cs. kind c = KTEXT}. inferred (text c))"

text \<open>The packages that the \<^verbatim>\<open>TEXT\<close> chunks of a line refer to.\<close>

definition linePkgs :: "State \<Rightarrow> int \<Rightarrow> string set" where
  "linePkgs st n = (case chunks st n of None \<Rightarrow> {} | Some cs \<Rightarrow> chunkPkgs cs)"

text \<open>The chunks filed under a line number.\<close>

definition lineChunks :: "State \<Rightarrow> int \<Rightarrow> Chunk set" where
  "lineChunks st n = (case chunks st n of None \<Rightarrow> {} | Some cs \<Rightarrow> set cs)"

section \<open>The chunks give the input back\<close>




text \<open>
  The sequence always ends: at the end of input, with all chunks, or by the one panic of
  the chunker, the newline inside a quoted literal.
\<close>

lemma readString_panic: "readString mark sc e = Inl p \<Longrightarrow> \<exists>n. p = NewlineInString n"
proof (induction mark sc e rule: readString.induct)
  case (1 mark sc e)
  from "1.prems" "1.IH" show ?case
    by (subst (asm) readString.simps) (auto split: prod.splits if_splits)
qed

lemma nextChunk_panic: "nextChunk sc = Inl p \<Longrightarrow> \<exists>n. p = NewlineInString n"
  by (auto simp: nextChunk_def Let_def split: prod.splits if_splits dest: readString_panic)

lemma allChunks_panic: "allChunks sc = Inl p \<Longrightarrow> \<exists>n. p = NewlineInString n"
proof (induction "unread sc" arbitrary: sc rule: less_induct)
  case less
  show ?case
  proof (cases "nextChunk sc")
    case (Inl p')
    with less.prems have "p' = p" by (subst (asm) allChunks.simps) simp
    with Inl show ?thesis by (auto dest: nextChunk_panic)
  next
    case (Inr r)
    obtain c e sc' where r: "r = ((c, e), sc')" by (cases r) auto
    show ?thesis
    proof (cases e)
      case (Some x)
      with less.prems Inr r show ?thesis by (subst (asm) allChunks.simps) simp
    next
      case None
      from less.prems Inr r None have "allChunks sc' = Inl p"
        by (subst (asm) allChunks.simps) (auto split: sum.splits)
      moreover have "unread sc' < unread sc" using Inr r None by (simp add: nextChunk_progress)
      ultimately show ?thesis by (intro less.hyps)
    qed
  qed
qed

section \<open>Line counts are not negative\<close>

lemma numNL_mkChunk: "numNL (fst (fst (mkChunk mark sc k n err))) = n"
  by (simp add: mkChunk_def Let_def)

lemma numNL_readSingleLineComment: "0 \<le> numNL (fst (fst (readSingleLineComment mark sc)))"
proof (induction mark sc rule: readSingleLineComment.induct)
  case (1 mark sc)
  then show ?case
    by (subst readSingleLineComment.simps) (auto simp: numNL_mkChunk split: prod.splits)
qed

lemma numNL_readMultilineComment:
  "0 \<le> n \<Longrightarrow> 0 \<le> numNL (fst (fst (readMultilineComment mark sc n)))"
proof (induction mark sc n rule: readMultilineComment.induct)
  case (1 mark sc n)
  then show ?case
    by (subst readMultilineComment.simps) (auto simp: numNL_mkChunk split: prod.splits)
qed

lemma numNL_readMultilineString:
  "0 \<le> n \<Longrightarrow> 0 \<le> numNL (fst (fst (readMultilineString mark sc n)))"
proof (induction mark sc n rule: readMultilineString.induct)
  case (1 mark sc n)
  then show ?case
    by (subst readMultilineString.simps) (auto simp: numNL_mkChunk split: prod.splits)
qed

lemma numNL_readString:
  "readString mark sc e = Inr r \<Longrightarrow> 0 \<le> numNL (fst (fst r))"
proof (induction mark sc e rule: readString.induct)
  case (1 mark sc e)
  from "1.prems" "1.IH" show ?case
    by (subst (asm) readString.simps) (auto simp: numNL_mkChunk split: prod.splits if_splits)
qed

lemma numNL_readText: "0 \<le> numNL (fst (fst (readText mark sc)))"
proof (induction mark sc rule: readText.induct)
  case (1 mark sc)
  then show ?case
    by (subst readText.simps) (auto simp: numNL_mkChunk Let_def split: prod.splits)
qed

lemma numNL_nextChunk: "nextChunk sc = Inr r \<Longrightarrow> 0 \<le> numNL (fst (fst r))"
  using numNL_readString [of "Mark sc" _ _ r]
  by (auto simp: nextChunk_def Let_def zeroChunk_def numNL_mkChunk numNL_readText
      numNL_readSingleLineComment numNL_readMultilineComment numNL_readMultilineString
      split: prod.splits if_splits)

lemma numNL_nextChunk': "nextChunk sc = Inr ((c, e), sc') \<Longrightarrow> 0 \<le> numNL c"
  using numNL_nextChunk [of sc "((c, e), sc')"] by simp

lemma numNL_allChunks: "allChunks sc = Inr cs \<Longrightarrow> c \<in> set cs \<Longrightarrow> 0 \<le> numNL c"
proof (induction "unread sc" arbitrary: sc cs rule: less_induct)
  case less
  show ?case
  proof (cases "nextChunk sc")
    case (Inl p)
    with less.prems show ?thesis by (subst (asm) allChunks.simps) simp
  next
    case (Inr r)
    obtain c' e sc' where r: "r = ((c', e), sc')" by (cases r) auto
    show ?thesis
    proof (cases e)
      case (Some x)
      with less.prems Inr r show ?thesis by (subst (asm) allChunks.simps) simp
    next
      case None
      from less.prems(1) Inr r None obtain cs' where
        cs': "allChunks sc' = Inr cs'" "cs = c' # cs'"
        by (subst (asm) allChunks.simps) (auto split: sum.splits)
      have "unread sc' < unread sc" using Inr r None by (simp add: nextChunk_progress)
      from less.hyps [OF this cs'(1)] numNL_nextChunk' [OF Inr [unfolded r]] less.prems(2) cs'(2)
      show ?thesis by auto
    qed
  qed
qed

text \<open>The first loop of \<^verbatim>\<open>partition\<close> adds the chunks of the sequence one by one.\<close>

lemma chunkLoop_allChunks:
  "chunkLoop sc st = (case allChunks sc of Inl p \<Rightarrow> Inl p | Inr cs \<Rightarrow> Inr (foldl addChunk st cs))"
proof (induction sc st rule: chunkLoop.induct)
  case (1 sc st)
  then show ?case
    apply (subst chunkLoop.simps)
    apply (subst allChunks.simps)
    apply (auto split: sum.splits prod.splits option.splits)
    done
qed

section \<open>The invariant of the bracket state\<close>

lemma hd_TrimLeftBlank: "TrimLeftBlank s \<noteq> [] \<Longrightarrow> hd (TrimLeftBlank s) \<noteq> CHR '' ''"
  unfolding TrimLeftBlank_def using hd_dropWhile [of "\<lambda>c. c = CHR '' '' \<or> c = CHR 0x09" s] by auto

lemma processLine_inv: "brackInv st \<Longrightarrow> brackInv (snd (processLine n st))"
  using hd_TrimLeftBlank
  by (auto simp: processLine_def brackInv_def Let_def split: option.splits)

lemma processLine_lineNum: "lineNum (snd (processLine n st)) = lineNum st"
  by (auto simp: processLine_def Let_def split: option.splits)

lemma processLine_chunks: "chunks (snd (processLine n st)) = chunks st"
  by (auto simp: processLine_def Let_def split: option.splits)

lemma fst_lineStep: "fst (lineStep acc n) = snd (processLine n (fst acc))"
  by (auto simp: lineStep_def split: prod.splits)

lemma foldl_lineStep_inv: "brackInv (fst acc) \<Longrightarrow> brackInv (fst (foldl lineStep acc ns))"
  by (induction ns arbitrary: acc) (simp_all add: fst_lineStep processLine_inv)

lemma addChunk_inv: "brackInv st \<Longrightarrow> 0 \<le> numNL c \<Longrightarrow> brackInv (addChunk st c)"
  by (auto simp: addChunk_def brackInv_def Let_def)

lemma foldl_addChunk_inv:
  "brackInv st \<Longrightarrow> (\<And>c. c \<in> set cs \<Longrightarrow> 0 \<le> numNL c) \<Longrightarrow> brackInv (foldl addChunk st cs)"
  by (induction cs arbitrary: st) (simp_all add: addChunk_inv)

lemma brackInv_initState: "brackInv initState"
  by (simp add: brackInv_def initState_def)

lemma chunkLoop_inv:
  assumes "chunkLoop (NewScanner code) initState = Inr state"
  shows "brackInv state"
proof -
  from assms obtain cs where cs: "allChunks (NewScanner code) = Inr cs"
    and st: "state = foldl addChunk initState cs"
    by (auto simp: chunkLoop_allChunks split: sum.splits)
  show ?thesis unfolding st
    by (rule foldl_addChunk_inv [OF brackInv_initState]) (rule numNL_allChunks [OF cs])
qed

text \<open>
  C7 (partition-state invariant): when the chunks are in, and after each line is
  processed (\<open>k\<close> lines, for any \<open>k\<close>; none for \<open>k < 1\<close>), \<^verbatim>\<open>brackCount\<close> is zero exactly
  when \<^verbatim>\<open>closingCh\<close> is the dummy blank, and exactly when \<^verbatim>\<open>brackOpenAt\<close> is zero: the
  open-block state is in its reset form only at depth zero.
\<close>

theorem partition_state_invariant:
  assumes "chunkLoop (NewScanner code) initState = Inr state"
    and "st = fst (foldl lineStep (state, [], []) [1..k])"
  shows "(brackCount st = 0) = (closingCh st = CHR '' '') \<and>
         (brackCount st = 0) = (brackOpenAt st = 0)"
proof -
  have "brackInv (fst (state, [] :: string, [] :: string))"
    using chunkLoop_inv [OF assms(1)] by simp
  then have "brackInv st" unfolding assms(2) by (rule foldl_lineStep_inv)
  then show ?thesis unfolding brackInv_def by blast
qed

theorem partition_state_invariant_witness:
  "\<exists>state. chunkLoop (NewScanner (''f('' @ [NL] @ '')'' @ [NL])) initState = Inr state \<and>
     (brackCount (fst (foldl lineStep (state, [], []) [1..1])) = 0) =
       (closingCh (fst (foldl lineStep (state, [], []) [1..1])) = CHR '' '') \<and>
     (brackCount (fst (foldl lineStep (state, [], []) [1..1])) = 0) =
       (brackOpenAt (fst (foldl lineStep (state, [], []) [1..1])) = 0)"
proof -
  have "allChunks (NewScanner (''f('' @ [NL] @ '')'' @ [NL])) =
      Inr [\<lparr>kind = KTEXT, text = ''f('' @ [NL], numNL = 1\<rparr>,
           \<lparr>kind = KTEXT, text = '')'' @ [NL], numNL = 1\<rparr>]"
    by code_simp
  then obtain state where
    s: "chunkLoop (NewScanner (''f('' @ [NL] @ '')'' @ [NL])) initState = Inr state"
    by (simp add: chunkLoop_allChunks)
  from partition_state_invariant [OF s refl, of 1] s show ?thesis by blast
qed

section \<open>Running the partition on a given text\<close>

text \<open>The equations that evaluate the partition once the chunk sequence is known.\<close>

named_theorems ev

lemmas [ev] = partition_code_def addChunk_def initState_def lineStep_def processLine_def
  inferPackages_def extractTxt_def TrimLeftBlank_def TrimSpace_def trimRunes_Nil trimRunes_Cons runeWidth_def
  spaceRunes_def HasPrefix_def
  addLine_def showInt_def showNat.simps digit_def isWord_def isLower_def inRange_def Let_def upto.simps

text \<open>
  C2 (line of the unclosed bracket): the claim is that the error for an unclosed bracket
  names the line on which the bracket was opened. Here the brace is opened on line 1 and
  never closed; the panic names line 3, the last line number of the input, because
  \<^verbatim>\<open>processLine\<close> stores \<^verbatim>\<open>state.lineNum\<close> (the line counter after all chunks) and not
  its argument \<^verbatim>\<open>lineNum\<close>.
\<close>

theorem unclosed_bracket_line:
  "partition_code (''func f() {'' @ [NL] @ ''x := 1'' @ [NL]) = Inl (BracketNotClosed 3 1) \<and>
   panicText (BracketNotClosed 3 1) = ''3: Bracket or paren not closed. 1''"
proof -
  have "allChunks (NewScanner (''func f() {'' @ [NL] @ ''x := 1'' @ [NL])) =
      Inr [\<lparr>kind = KTEXT, text = ''func f() {'' @ [NL], numNL = 1\<rparr>,
           \<lparr>kind = KTEXT, text = ''x := 1'' @ [NL], numNL = 1\<rparr>]"
    by code_simp
  then have "partition_code (''func f() {'' @ [NL] @ ''x := 1'' @ [NL]) = Inl (BracketNotClosed 3 1)"
    by (simp add: chunkLoop_allChunks ev)
  moreover have "panicText (BracketNotClosed 3 1) = ''3: Bracket or paren not closed. 1''"
    by (simp add: panicText_def showInt_def showNat.simps digit_def)
  ultimately show ?thesis by simp
qed

text \<open>
  C3 (line-break count of a chunk): the claim is that \<^verbatim>\<open>numNL\<close> is the number of newlines
  in the chunk's text, also for a chunk cut short by the end of input. A raw literal that
  the input leaves open holds two newlines here, and its count is 1: at the end of input
  \<^verbatim>\<open>readMultilineString\<close> passes the constant 1, not \<^verbatim>\<open>numLines\<close>.
\<close>

theorem raw_literal_line_count:
  "allChunks (NewScanner ([BQUOTE] @ ''a'' @ [NL] @ ''b'' @ [NL] @ ''c'')) =
     Inr [\<lparr>kind = KSTRING, text = [BQUOTE] @ ''a'' @ [NL] @ ''b'' @ [NL] @ ''c'', numNL = 1\<rparr>] \<and>
   length (filter (\<lambda>c. c = NL) ([BQUOTE] @ ''a'' @ [NL] @ ''b'' @ [NL] @ ''c'')) = 2"
proof -
  have "allChunks (NewScanner ([BQUOTE] @ ''a'' @ [NL] @ ''b'' @ [NL] @ ''c'')) =
     Inr [\<lparr>kind = KSTRING, text = [BQUOTE] @ ''a'' @ [NL] @ ''b'' @ [NL] @ ''c'', numNL = 1\<rparr>]"
    by code_simp
  then show ?thesis by simp
qed

text \<open>
  C4, as stated, fails: the chunk of the comment \<^verbatim>\<open>//c\<close> that a newline ends has that
  newline in its text.
\<close>

theorem comment_newline_counterexample:
  "\<exists>c cs. allChunks (NewScanner (''//c'' @ [NL] @ ''x'')) = Inr (c # cs) \<and>
     kind c = KCOMMENT \<and> text c = ''//c'' @ [NL] \<and> NL \<in> set (text c)"
proof -
  have "allChunks (NewScanner (''//c'' @ [NL] @ ''x'')) =
     Inr [\<lparr>kind = KCOMMENT, text = ''//c'' @ [NL], numNL = 1\<rparr>,
          \<lparr>kind = KTEXT, text = ''x'', numNL = 0\<rparr>]"
    by code_simp
  then show ?thesis by simp
qed

text \<open>
  C9, as stated, fails: after the line \<^verbatim>\<open>type A int\<close>, which is top level, the blank line 2
  has a text of white space only (its newline), yet processing it sets \<^verbatim>\<open>isTopLevel\<close> to
  false, and the line goes to the body and not where line 1 went.
\<close>

theorem blank_line_counterexample:
  "partition_code (''type A int'' @ [NL, NL]) =
     Inr (''//line :1'' @ [NL] @ ''type A int'' @ [NL],
          ''//line :2'' @ [NL] @ [NL] @ ''//line :3'' @ [NL], []) \<and>
   (\<exists>state. chunkLoop (NewScanner (''type A int'' @ [NL, NL])) initState = Inr state \<and>
      chunks state 2 = Some [\<lparr>kind = KTEXT, text = [NL], numNL = 1\<rparr>] \<and>
      isTopLevel (fst (foldl lineStep (state, [], []) [1..1])) \<and>
      \<not> isTopLevel (fst (foldl lineStep (state, [], []) [1..2])))"
proof -
  have a: "allChunks (NewScanner (''type A int'' @ [NL, NL])) =
      Inr [\<lparr>kind = KTEXT, text = ''type A int'' @ [NL], numNL = 1\<rparr>,
           \<lparr>kind = KTEXT, text = [NL], numNL = 1\<rparr>]"
    by code_simp
  then have "partition_code (''type A int'' @ [NL, NL]) =
     Inr (''//line :1'' @ [NL] @ ''type A int'' @ [NL],
          ''//line :2'' @ [NL] @ [NL] @ ''//line :3'' @ [NL], [])"
    by (simp add: chunkLoop_allChunks ev)
  moreover from a have "chunkLoop (NewScanner (''type A int'' @ [NL, NL])) initState =
      Inr (foldl addChunk initState [\<lparr>kind = KTEXT, text = ''type A int'' @ [NL], numNL = 1\<rparr>,
           \<lparr>kind = KTEXT, text = [NL], numNL = 1\<rparr>])"
    by (simp add: chunkLoop_allChunks)
  ultimately show ?thesis
    by (simp add: ev)
qed

section \<open>Single-line comments\<close>

lemma ReadRune_Cons:
  assumes "drop (pos sc) (str sc) = c # cs"
  shows "ReadRune sc = (c, None, sc\<lparr>pos := pos sc + 1\<rparr>)"
    and "drop (pos sc + 1) (str sc) = cs"
proof -
  have lt: "pos sc < length (str sc)"
    using assms by (cases "pos sc < length (str sc)") auto
  from assms have "str sc ! pos sc = c"
    by (metis hd_drop_conv_nth list.sel(1) lt)
  with lt show "ReadRune sc = (c, None, sc\<lparr>pos := pos sc + 1\<rparr>)"
    by (simp add: ReadRune_def)
  from assms show "drop (pos sc + 1) (str sc) = cs"
    by (metis Suc_eq_plus1 drop_Suc list.sel(3) tl_drop)
qed

lemma readSingleLineComment_line:
  "drop (pos sc) (str sc) = body @ NL # rest \<Longrightarrow> NL \<notin> set body \<Longrightarrow>
   readSingleLineComment mark sc =
     mkChunk mark (sc\<lparr>pos := pos sc + length body + 1\<rparr>) KCOMMENT 1 None"
proof (induction body arbitrary: sc)
  case Nil
  then have "ReadRune sc = (NL, None, sc\<lparr>pos := pos sc + 1\<rparr>)"
    by (simp add: ReadRune_Cons)
  then show ?case by (subst readSingleLineComment.simps) simp
next
  case (Cons c body)
  let ?sc1 = "sc\<lparr>pos := pos sc + 1\<rparr>"
  from Cons.prems have r: "ReadRune sc = (c, None, ?sc1)"
    and d: "drop (pos ?sc1) (str ?sc1) = body @ NL # rest"
    using ReadRune_Cons [of sc c "body @ NL # rest"] by simp_all
  from Cons.prems have "c \<noteq> NL" "NL \<notin> set body" by auto
  with Cons.IH [OF d] r show ?case
    by (subst readSingleLineComment.simps) simp
qed

text \<open>
  C4 (single-line comment chunk), amended: where the input at the read head is \<^verbatim>\<open>//\<close>, a
  body without newline, and a newline, \<^verbatim>\<open>nextChunk\<close> returns a comment chunk whose text is
  all of that, the terminating newline included as its last character, and whose
  line-break count is 1; the read head stands after the newline.
\<close>

theorem single_line_comment_chunk:
  assumes "drop (pos sc) (str sc) = ''//'' @ body @ [NL] @ rest" and "NL \<notin> set body"
  shows "nextChunk sc =
    Inr ((\<lparr>kind = KCOMMENT, text = ''//'' @ body @ [NL], numNL = 1\<rparr>, None),
         sc\<lparr>pos := pos sc + length body + 3\<rparr>)"
proof -
  let ?sc1 = "sc\<lparr>pos := pos sc + 1\<rparr>"
  let ?sc2 = "sc\<lparr>pos := pos sc + 2\<rparr>"
  let ?sc3 = "sc\<lparr>pos := pos sc + length body + 3\<rparr>"
  have lt: "pos sc \<le> length (str sc)"
    using assms(1) by (cases "pos sc \<le> length (str sc)") auto
  from assms(1) have r1: "ReadRune sc = (CHR ''/'', None, ?sc1)"
    and d1: "drop (pos ?sc1) (str ?sc1) = ''/'' @ body @ NL # rest"
    using ReadRune_Cons [of sc "CHR ''/''" "''/'' @ body @ NL # rest"] by simp_all
  from d1 have r2: "ReadRune ?sc1 = (CHR ''/'', None, ?sc2)"
    and d2: "drop (pos ?sc2) (str ?sc2) = body @ NL # rest"
    using ReadRune_Cons [of ?sc1 "CHR ''/''" "body @ NL # rest"] by simp_all
  have "pos ?sc2 + length body + 1 = pos sc + length body + 3" by simp
  then have "?sc2\<lparr>pos := pos ?sc2 + length body + 1\<rparr> = ?sc3" by simp
  then have "readSingleLineComment (Mark sc) ?sc2 = mkChunk (Mark sc) ?sc3 KCOMMENT 1 None"
    using readSingleLineComment_line [OF d2 assms(2), of "Mark sc"] by (simp only:)
  moreover have "Slice ?sc3 (Mark sc) = ''//'' @ body @ [NL]"
    using lt assms(1) by (simp add: Slice_Mark numeral_3_eq_3)
  ultimately show ?thesis
    using r1 r2 by (simp add: nextChunk_def mkChunk_def Let_def)
qed

theorem single_line_comment_chunk_witness:
  "nextChunk (NewScanner (''// note'' @ [NL] @ ''x'')) =
    Inr ((\<lparr>kind = KCOMMENT, text = ''// note'' @ [NL], numNL = 1\<rparr>, None),
         \<lparr>str = ''// note'' @ [NL] @ ''x'', pos = 8\<rparr>)"
  using single_line_comment_chunk [of "NewScanner (''// note'' @ [NL] @ ''x'')" "'' note''" "''x''"]
  by (simp add: NewScanner_def)

section \<open>Lines without structural text\<close>

lemma HasPrefix_hd: "HasPrefix l (c # p) \<Longrightarrow> l \<noteq> [] \<and> hd l = c"
  by (cases l) (auto simp: HasPrefix_def)

lemma runeWidth_space: "isSpace c \<Longrightarrow> runeWidth spaceRunes (c # cs) = 1"
  unfolding isSpace_def
  by (elim disjE) (simp_all add: runeWidth_def spaceRunes_def HasPrefix_def)

lemma trimRunes_blank: "\<forall>c \<in> set l. isSpace c \<Longrightarrow> trimRunes spaceRunes l = []"
proof (induction l)
  case Nil
  show ?case by (rule trimRunes_Nil)
next
  case (Cons c l)
  then have "runeWidth spaceRunes (c # l) = 1" by (simp add: runeWidth_space)
  with Cons show ?case by (subst trimRunes.simps) simp
qed

lemma TrimSpace_blank:
  assumes "\<And>c. c \<in> set l \<Longrightarrow> isSpace c"
  shows "TrimSpace l = []"
proof -
  have "\<forall>c \<in> set l. isSpace c" using assms by blast
  then have d: "trimRunes spaceRunes l = []" by (rule trimRunes_blank)
  show ?thesis unfolding TrimSpace_def d by (simp add: trimRunes_Nil)
qed

text \<open>
  C9 (lines of white space), amended: for a line whose \<^verbatim>\<open>TEXT\<close> content is empty or white
  space only, \<^verbatim>\<open>processLine\<close> leaves \<^verbatim>\<open>brackCount\<close>, \<^verbatim>\<open>closingCh\<close> and \<^verbatim>\<open>brackOpenAt\<close>
  unchanged. \<^verbatim>\<open>isTopLevel\<close> is unchanged when the content is empty or blanks and tabs
  only, or when a block is open; when no block is open and the content has another
  white-space character (the newline of a blank line), \<^verbatim>\<open>isTopLevel\<close> becomes false.
\<close>

theorem blank_line_frame:
  assumes sp: "\<forall>c \<in> set (lineTxt st n). isSpace c"
    and cl: "closingCh st \<in> {CHR '' '', CHR ''}'', CHR '')''}"
  shows "brackCount (snd (processLine n st)) = brackCount st \<and>
         closingCh (snd (processLine n st)) = closingCh st \<and>
         brackOpenAt (snd (processLine n st)) = brackOpenAt st \<and>
         isTopLevel (snd (processLine n st)) =
           (isTopLevel st \<and> (TrimLeftBlank (lineTxt st n) = [] \<or> brackCount st \<noteq> 0))"
proof (cases "chunks st n")
  case None
  then show ?thesis by (simp add: processLine_def lineTxt_def TrimLeftBlank_def)
next
  case (Some cs)
  define l where "l = TrimLeftBlank (extractTxt cs)"
  have all: "isSpace c" if "c \<in> set l" for c
    using that sp Some set_dropWhileD [of c _ "extractTxt cs"]
    by (auto simp: l_def TrimLeftBlank_def lineTxt_def)
  have ts: "TrimSpace l = []" using all by (rule TrimSpace_blank)
  have hd: "hd l \<noteq> closingCh st" if "l \<noteq> []"
  proof -
    from that have "isSpace (hd l)" by (simp add: all)
    moreover from that have "hd l \<noteq> CHR '' ''" unfolding l_def by (rule hd_TrimLeftBlank)
    ultimately show ?thesis using cl by (auto simp: isSpace_def)
  qed
  have np: "\<not> HasPrefix l (c # p)" if "\<not> isSpace c" for c p
  proof
    assume "HasPrefix l (c # p)"
    then have "l \<noteq> []" "hd l = c" using HasPrefix_hd by blast+
    then have "isSpace c" using all [of "hd l"] hd_in_set [of l] by simp
    with that show False by simp
  qed
  have pre: "\<not> HasPrefix l ''func ''" "\<not> HasPrefix l ''type ''" "\<not> HasPrefix l ''import ''"
    by (rule np, simp add: isSpace_def)+
  from Some ts hd pre show ?thesis
    by (auto simp: processLine_def lineTxt_def Let_def l_def [symmetric])
qed

theorem blank_line_frame_witness:
  "brackCount (snd (processLine 2 (initState\<lparr>isTopLevel := True,
       chunks := [2 \<mapsto> [\<lparr>kind = KTEXT, text = [NL], numNL = 1\<rparr>]]\<rparr>))) = 0 \<and>
   closingCh (snd (processLine 2 (initState\<lparr>isTopLevel := True,
       chunks := [2 \<mapsto> [\<lparr>kind = KTEXT, text = [NL], numNL = 1\<rparr>]]\<rparr>))) = CHR '' '' \<and>
   brackOpenAt (snd (processLine 2 (initState\<lparr>isTopLevel := True,
       chunks := [2 \<mapsto> [\<lparr>kind = KTEXT, text = [NL], numNL = 1\<rparr>]]\<rparr>))) = 0 \<and>
   \<not> isTopLevel (snd (processLine 2 (initState\<lparr>isTopLevel := True,
       chunks := [2 \<mapsto> [\<lparr>kind = KTEXT, text = [NL], numNL = 1\<rparr>]]\<rparr>)))"
  using blank_line_frame [of "initState\<lparr>isTopLevel := True,
       chunks := [2 \<mapsto> [\<lparr>kind = KTEXT, text = [NL], numNL = 1\<rparr>]]\<rparr>" 2]
  by (simp add: lineTxt_def extractTxt_def initState_def isSpace_def TrimLeftBlank_def)

section \<open>What import inference matches\<close>

lemma findPkgs_shape:
  "m \<in> set (findPkgs b s) \<Longrightarrow>
   \<exists>c w. m = c # w @ ''.'' \<and> isLower c \<and> w \<noteq> [] \<and> list_all isWord w"
proof (induction b s rule: findPkgs.induct)
  case (1 prevWord)
  then show ?case by simp
next
  case (2 prevWord c cs)
  show ?case
  proof (cases "\<not> prevWord \<and> isLower c")
    case False
    with 2 show ?thesis by auto
  next
    case True
    show ?thesis
    proof (cases "takeWhile isWord cs \<noteq> [] \<and> dropWhile isWord cs \<noteq> [] \<and>
        hd (dropWhile isWord cs) = CHR ''.''")
      case False
      with True 2 show ?thesis by (auto simp: Let_def)
    next
      case m: True
      from "2.prems" True m
      have "m = c # takeWhile isWord cs @ ''.'' \<or> m \<in> set (findPkgs False (tl (dropWhile isWord cs)))"
        by (auto simp: Let_def)
      then show ?thesis
      proof
        assume "m = c # takeWhile isWord cs @ ''.''"
        moreover have "list_all isWord (takeWhile isWord cs)"
          by (simp add: list_all_iff) (meson set_takeWhileD)
        ultimately show ?thesis using True m by blast
      next
        assume "m \<in> set (findPkgs False (tl (dropWhile isWord cs)))"
        with "2.IH"(1) [OF True refl refl m] show ?thesis by blast
      qed
    qed
  qed
qed

lemma not_isWord_dot [simp]: "\<not> isWord (CHR ''.'')" "\<not> isLower (CHR ''.'')"
  by (simp_all add: isWord_def isLower_def inRange_def)

lemma findPkgs_append:
  "(pre = [] \<and> \<not> b) \<or> (pre \<noteq> [] \<and> \<not> isWord (last pre)) \<Longrightarrow>
   findPkgs b (pre @ s) = findPkgs b pre @ findPkgs False s"
proof (induction b pre rule: findPkgs.induct)
  case (1 prevWord)
  then show ?case by simp
next
  case (2 prevWord c cs)
  from "2.prems" have last: "\<not> isWord (last (c # cs))" by simp
  have next_ok: "(cs = [] \<and> \<not> isWord c) \<or> (cs \<noteq> [] \<and> \<not> isWord (last cs))"
    using last by (cases cs) auto
  show ?case
  proof (cases "\<not> prevWord \<and> isLower c")
    case False
    then have "findPkgs prevWord ((c # cs) @ s) = findPkgs (isWord c) (cs @ s)"
      and "findPkgs prevWord (c # cs) = findPkgs (isWord c) cs" by auto
    moreover have "findPkgs (isWord c) (cs @ s) = findPkgs (isWord c) cs @ findPkgs False s"
      using "2.IH"(3) [OF False] next_ok by blast
    ultimately show ?thesis by simp
  next
    case True
    then have wc: "isWord c" by (auto simp: isWord_def isLower_def)
    with next_ok have cs: "cs \<noteq> []" "\<not> isWord (last cs)" by auto
    then obtain x where x: "x \<in> set cs" "\<not> isWord x" using last_in_set by blast
    then have tw: "takeWhile isWord (cs @ s) = takeWhile isWord cs"
      and dw: "dropWhile isWord (cs @ s) = dropWhile isWord cs @ s"
      by (simp_all add: takeWhile_append1 dropWhile_append1)
    from x have dn: "dropWhile isWord cs \<noteq> []" by (auto simp: dropWhile_eq_Nil_conv)
    show ?thesis
    proof (cases "takeWhile isWord cs \<noteq> [] \<and> hd (dropWhile isWord cs) = CHR ''.''")
      case False
      then have "findPkgs prevWord ((c # cs) @ s) = findPkgs True (cs @ s)"
        and "findPkgs prevWord (c # cs) = findPkgs True cs"
        using True tw dw dn by (auto simp: Let_def)
      moreover have "findPkgs True (cs @ s) = findPkgs True cs @ findPkgs False s"
        using "2.IH"(2) [OF True refl refl] False dn cs by blast
      ultimately show ?thesis by simp
    next
      case m: True
      let ?r = "tl (dropWhile isWord cs)"
      have l1: "findPkgs prevWord ((c # cs) @ s) =
          (c # takeWhile isWord cs @ ''.'') # findPkgs False (?r @ s)"
        using True tw dw dn m by (auto simp: Let_def)
      have l2: "findPkgs prevWord (c # cs) = (c # takeWhile isWord cs @ ''.'') # findPkgs False ?r"
        using True dn m by (auto simp: Let_def)
      have "(?r = [] \<and> \<not> False) \<or> (?r \<noteq> [] \<and> \<not> isWord (last ?r))"
      proof (cases "?r = []")
        case True
        then show ?thesis by simp
      next
        case False
        then have "last ?r = last (dropWhile isWord cs)" by (simp add: last_tl)
        also have "\<dots> = last cs"
          using dn by (metis last_appendR takeWhile_dropWhile_id)
        finally show ?thesis using cs False by simp
      qed
      then have "findPkgs False (?r @ s) = findPkgs False ?r @ findPkgs False s"
        using "2.IH"(1) [OF True refl refl] m dn by blast
      with l1 l2 show ?thesis by simp
    qed
  qed
qed

lemma findPkgs_single: "findPkgs False (q # ''.'' @ suf) = findPkgs False suf"
  by (simp add: Let_def)

lemma findPkgs_single_char:
  assumes "pre = [] \<or> \<not> isWord (last pre)"
  shows "findPkgs False (pre @ q # ''.'' @ suf) = findPkgs False pre @ findPkgs False suf"
proof -
  have "findPkgs False (pre @ (q # ''.'' @ suf)) = findPkgs False pre @ findPkgs False (q # ''.'' @ suf)"
    using assms by (intro findPkgs_append) auto
  then show ?thesis by (simp only: findPkgs_single)
qed

section \<open>The keys of the import set\<close>

lemma inferPackages_foldl: "inferPackages code m = foldl inferStep m (findPkgs False code)"
  by (simp add: inferPackages_def inferStep_def [abs_def])

lemma foldl_inferStep_keys:
  "fst ` set (foldl inferStep m ps) =
     fst ` set m \<union> {p. \<exists>pkg \<in> set ps. builtinPkgs (butlast pkg) = Some p}"
proof (induction ps arbitrary: m)
  case Nil
  then show ?case by simp
next
  case (Cons a ps)
  have "fst ` set (inferStep m a) = fst ` set m \<union> {p. builtinPkgs (butlast a) = Some p}"
    by (auto simp: inferStep_def AList.dom_update split: option.splits)
  then show ?case unfolding foldl_Cons Cons.IH by auto
qed

lemma foldl_inferStep_distinct:
  "distinct (map fst m) \<Longrightarrow> distinct (map fst (foldl inferStep m ps))"
  by (induction ps arbitrary: m)
     (auto simp: inferStep_def AList.distinct_update split: option.splits)

lemma inferPackages_keys: "fst ` set (inferPackages code m) = fst ` set m \<union> inferred code"
  by (simp add: inferPackages_foldl foldl_inferStep_keys inferred_def)

lemma inferPackages_distinct:
  "distinct (map fst m) \<Longrightarrow> distinct (map fst (inferPackages code m))"
  by (simp add: inferPackages_foldl foldl_inferStep_distinct)

lemma foldl_inferChunk_keys:
  "fst ` set (foldl inferChunk m cs) = fst ` set m \<union> chunkPkgs cs"
proof (induction cs arbitrary: m)
  case Nil
  then show ?case by (simp add: chunkPkgs_def)
next
  case (Cons a cs)
  have "chunkPkgs (a # cs) = (if kind a = KTEXT then inferred (text a) else {}) \<union> chunkPkgs cs"
    by (auto simp: chunkPkgs_def)
  then show ?case unfolding foldl_Cons Cons.IH
    by (auto simp: inferChunk_def inferPackages_keys)
qed

lemma foldl_inferChunk_distinct:
  "distinct (map fst m) \<Longrightarrow> distinct (map fst (foldl inferChunk m cs))"
  by (induction cs arbitrary: m) (auto simp: inferChunk_def inferPackages_distinct)

lemma processLine_pkgs:
  "pkgsToImport (snd (processLine n st)) =
     (case chunks st n of None \<Rightarrow> pkgsToImport st
      | Some cs \<Rightarrow> foldl inferChunk (pkgsToImport st) cs)"
  by (auto simp: processLine_def Let_def inferChunk_def [abs_def] split: option.splits)

lemma processLine_keys:
  "fst ` set (pkgsToImport (snd (processLine n st))) = fst ` set (pkgsToImport st) \<union> linePkgs st n"
  by (simp add: processLine_pkgs linePkgs_def foldl_inferChunk_keys split: option.splits)

lemma processLine_distinct:
  "distinct (map fst (pkgsToImport st)) \<Longrightarrow>
   distinct (map fst (pkgsToImport (snd (processLine n st))))"
  by (simp add: processLine_pkgs foldl_inferChunk_distinct split: option.splits)

lemma linePkgs_cong: "chunks st' = chunks st \<Longrightarrow> linePkgs st' n = linePkgs st n"
  by (simp add: linePkgs_def)

lemma foldl_lineStep_chunks: "chunks (fst (foldl lineStep acc ns)) = chunks (fst acc)"
  by (induction ns arbitrary: acc) (simp_all add: fst_lineStep processLine_chunks)

lemma foldl_lineStep_keys:
  "fst ` set (pkgsToImport (fst (foldl lineStep acc ns))) =
     fst ` set (pkgsToImport (fst acc)) \<union> (\<Union>n \<in> set ns. linePkgs (fst acc) n)"
proof (induction ns arbitrary: acc)
  case Nil
  then show ?case by simp
next
  case (Cons a ns)
  have "chunks (fst (lineStep acc a)) = chunks (fst acc)"
    by (simp add: fst_lineStep processLine_chunks)
  then have "linePkgs (fst (lineStep acc a)) n = linePkgs (fst acc) n" for n
    by (rule linePkgs_cong)
  then show ?case unfolding foldl_Cons Cons.IH
    by (auto simp: fst_lineStep processLine_keys)
qed

lemma foldl_lineStep_distinct:
  "distinct (map fst (pkgsToImport (fst acc))) \<Longrightarrow>
   distinct (map fst (pkgsToImport (fst (foldl lineStep acc ns))))"
  by (induction ns arbitrary: acc) (simp_all add: fst_lineStep processLine_distinct)

lemma addChunk_simps:
  "lineNum (addChunk st c) = lineNum st + numNL c"
  "pkgsToImport (addChunk st c) = pkgsToImport st"
  "chunks (addChunk st c) =
     (chunks st)(lineNum st \<mapsto> (case chunks st (lineNum st) of None \<Rightarrow> [] | Some cs \<Rightarrow> cs) @ [c])"
  by (simp_all add: addChunk_def Let_def)

lemma lineChunks_addChunk:
  "lineChunks (addChunk st c) n = (if n = lineNum st then insert c (lineChunks st n) else lineChunks st n)"
  by (auto simp: lineChunks_def addChunk_simps split: option.splits)

lemma foldl_addChunk_pkgs: "pkgsToImport (foldl addChunk st cs) = pkgsToImport st"
  by (induction cs arbitrary: st) (simp_all add: addChunk_simps)

lemma foldl_addChunk_lineNum:
  "(\<And>c. c \<in> set cs \<Longrightarrow> 0 \<le> numNL c) \<Longrightarrow> lineNum st \<le> lineNum (foldl addChunk st cs)"
proof (induction cs arbitrary: st)
  case Nil
  then show ?case by simp
next
  case (Cons a cs)
  have "lineNum st \<le> lineNum (addChunk st a)" using Cons.prems by (simp add: addChunk_simps)
  also have "\<dots> \<le> lineNum (foldl addChunk (addChunk st a) cs)"
    using Cons.prems by (intro Cons.IH) simp
  finally show ?case by simp
qed

lemma foldl_addChunk_keeps: "lineChunks st n \<subseteq> lineChunks (foldl addChunk st cs) n"
proof (induction cs arbitrary: st)
  case Nil
  then show ?case by simp
next
  case (Cons a cs)
  have "lineChunks st n \<subseteq> lineChunks (addChunk st a) n" by (auto simp: lineChunks_addChunk)
  with Cons.IH [of "addChunk st a"] show ?case by auto
qed

lemma foldl_addChunk_filed:
  assumes "\<And>c. c \<in> set cs \<Longrightarrow> 0 \<le> numNL c" and "c \<in> set cs"
  shows "\<exists>n. lineNum st \<le> n \<and> n \<le> lineNum (foldl addChunk st cs) \<and>
             c \<in> lineChunks (foldl addChunk st cs) n"
  using assms
proof (induction cs arbitrary: st)
  case Nil
  then show ?case by simp
next
  case (Cons a cs)
  let ?st1 = "addChunk st a"
  have nn: "\<And>c. c \<in> set cs \<Longrightarrow> 0 \<le> numNL c" using Cons.prems(1) by simp
  have le1: "lineNum st \<le> lineNum ?st1" using Cons.prems(1) by (simp add: addChunk_simps)
  have le2: "lineNum ?st1 \<le> lineNum (foldl addChunk ?st1 cs)"
    using nn by (rule foldl_addChunk_lineNum)
  show ?case
  proof (cases "c \<in> set cs")
    case True
    from Cons.IH [OF nn True, of ?st1] obtain n where
      "lineNum ?st1 \<le> n" "n \<le> lineNum (foldl addChunk ?st1 cs)"
      "c \<in> lineChunks (foldl addChunk ?st1 cs) n" by blast
    with le1 show ?thesis by (intro exI [of _ n]) simp
  next
    case False
    with Cons.prems(2) have "c = a" by simp
    then have "c \<in> lineChunks ?st1 (lineNum st)" by (simp add: lineChunks_addChunk)
    then have "c \<in> lineChunks (foldl addChunk ?st1 cs) (lineNum st)"
      using foldl_addChunk_keeps by blast
    with le1 le2 show ?thesis by (intro exI [of _ "lineNum st"]) simp
  qed
qed

lemma foldl_addChunk_origin:
  "c \<in> lineChunks (foldl addChunk st cs) n \<Longrightarrow> c \<in> set cs \<or> c \<in> lineChunks st n"
proof (induction cs arbitrary: st)
  case Nil
  then show ?case by simp
next
  case (Cons a cs)
  from Cons.prems have "c \<in> set cs \<or> c \<in> lineChunks (addChunk st a) n"
    by (intro Cons.IH) simp
  then show ?case by (auto simp: lineChunks_addChunk split: if_splits)
qed

lemma linePkgs_lineChunks:
  "linePkgs st n = (\<Union>c \<in> {c \<in> lineChunks st n. kind c = KTEXT}. inferred (text c))"
  by (auto simp: linePkgs_def lineChunks_def chunkPkgs_def split: option.splits)

lemma count_distinct_key:
  "distinct (map fst m) \<Longrightarrow> k \<in> fst ` set m \<Longrightarrow> length (filter (\<lambda>e. fst e = k) m) = 1"
proof (induction m)
  case Nil
  then show ?case by simp
next
  case (Cons a m)
  show ?case
  proof (cases "fst a = k")
    case True
    with Cons.prems have "k \<notin> fst ` set m" by auto
    then have "filter (\<lambda>e. fst e = k) m = []" by (auto simp: filter_empty_conv)
    with True show ?thesis by simp
  next
    case False
    with Cons show ?thesis by auto
  qed
qed

text \<open>What \<^verbatim>\<open>partition\<close> returns as the import set, from the chunk sequence.\<close>

lemma partition_imports:
  assumes "partition_code code = Inr (topLevel, nonTopLevel, imports)"
  obtains cs state where "allChunks (NewScanner code) = Inr cs"
    and "state = foldl addChunk initState cs"
    and "distinct (map fst imports)"
    and "fst ` set imports = (\<Union>n \<in> {1..lineNum state}. linePkgs state n)"
proof -
  from assms obtain state where st: "chunkLoop (NewScanner code) initState = Inr state"
    by (auto simp: partition_code_def split: sum.splits)
  then obtain cs where cs: "allChunks (NewScanner code) = Inr cs"
    and state: "state = foldl addChunk initState cs"
    by (auto simp: chunkLoop_allChunks split: sum.splits)
  let ?acc = "foldl lineStep (state, [], []) [1..lineNum state]"
  from assms st have imp: "imports = pkgsToImport (fst ?acc)"
    by (auto simp: partition_code_def split: prod.splits if_splits)
  have p0: "pkgsToImport state = []"
    unfolding state by (simp add: foldl_addChunk_pkgs initState_def)
  have "distinct (map fst imports)"
    unfolding imp by (rule foldl_lineStep_distinct) (simp add: p0)
  moreover have "fst ` set imports = (\<Union>n \<in> {1..lineNum state}. linePkgs state n)"
    unfolding imp foldl_lineStep_keys by (simp add: p0)
  ultimately show ?thesis using cs state that by blast
qed

text \<open>
  C8 (import-inference idempotence): when the partition succeeds and some \<^verbatim>\<open>TEXT\<close> chunk
  of the input has a match of the qualifier \<open>q\<close> of a standard package, however many
  other references to it the input has on whatever lines, the import set that the
  partition returns has exactly one entry for the canonical path of \<open>q\<close>.
\<close>

theorem import_idempotence:
  assumes "partition_code code = Inr (topLevel, nonTopLevel, imports)"
    and "allChunks (NewScanner code) = Inr cs"
    and "c \<in> set cs" and "kind c = KTEXT"
    and "q @ ''.'' \<in> set (findPkgs False (text c))"
    and "builtinPkgs q = Some path"
  shows "length (filter (\<lambda>e. fst e = path) imports) = 1"
proof -
  from assms(1) obtain cs' state where cs': "allChunks (NewScanner code) = Inr cs'"
    and state: "state = foldl addChunk initState cs'"
    and d: "distinct (map fst imports)"
    and k: "fst ` set imports = (\<Union>n \<in> {1..lineNum state}. linePkgs state n)"
    by (rule partition_imports)
  from cs' assms(2) have [simp]: "cs' = cs" by simp
  have nn: "\<And>c. c \<in> set cs \<Longrightarrow> 0 \<le> numNL c" using assms(2) by (rule numNL_allChunks)
  from foldl_addChunk_filed [OF nn assms(3), of initState] obtain n where
    n: "1 \<le> n" "n \<le> lineNum state" "c \<in> lineChunks state n"
    by (auto simp: state initState_def)
  have "path \<in> inferred (text c)"
    using assms(5,6) by (auto simp: inferred_def intro!: bexI [of _ "q @ ''.''"])
  with n(3) assms(4) have "path \<in> linePkgs state n"
    by (auto simp: linePkgs_lineChunks)
  with n(1,2) have "path \<in> fst ` set imports" unfolding k by auto
  with d show ?thesis by (rule count_distinct_key)
qed

lemma builtinPkgs_fmt: "builtinPkgs ''fmt'' = Some ''fmt''"
  by (simp add: builtinPkgs_def pkgs_def shortName_def)

lemma chunks_fmt2:
  "allChunks (NewScanner (''fmt.Print(1)'' @ [NL] @ ''fmt.Print(2)'' @ [NL])) =
     Inr [\<lparr>kind = KTEXT, text = ''fmt.Print(1)'' @ [NL], numNL = 1\<rparr>,
          \<lparr>kind = KTEXT, text = ''fmt.Print(2)'' @ [NL], numNL = 1\<rparr>]"
  by code_simp

lemma partition_fmt2:
  "partition_code (''fmt.Print(1)'' @ [NL] @ ''fmt.Print(2)'' @ [NL]) =
     Inr ([], ''//line :1'' @ [NL] @ ''fmt.Print(1)'' @ [NL] @ ''//line :2'' @ [NL] @
              ''fmt.Print(2)'' @ [NL] @ ''//line :3'' @ [NL], [(''fmt'', True)])"
  using chunks_fmt2 by (simp add: chunkLoop_allChunks ev builtinPkgs_fmt)

theorem import_idempotence_witness:
  "partition_code (''fmt.Print(1)'' @ [NL] @ ''fmt.Print(2)'' @ [NL]) =
     Inr ([], ''//line :1'' @ [NL] @ ''fmt.Print(1)'' @ [NL] @ ''//line :2'' @ [NL] @
              ''fmt.Print(2)'' @ [NL] @ ''//line :3'' @ [NL], [(''fmt'', True)]) \<and>
   length (filter (\<lambda>e. fst e = ''fmt'') [(''fmt'', True)]) = 1"
proof -
  have "''fmt'' @ ''.'' \<in> set (findPkgs False
      (text \<lparr>kind = KTEXT, text = ''fmt.Print(1)'' @ [NL], numNL = 1\<rparr>))"
    by (simp add: isWord_def isLower_def inRange_def Let_def)
  from import_idempotence [OF partition_fmt2 chunks_fmt2 _ _ this builtinPkgs_fmt] partition_fmt2
  show ?thesis by simp
qed

lemma inferred_shape:
  assumes "path \<in> inferred code"
  shows "\<exists>q. q @ ''.'' \<in> set (findPkgs False code) \<and> builtinPkgs q = Some path \<and>
             2 \<le> length q \<and> isLower (hd q) \<and> list_all isWord q"
proof -
  from assms obtain pkg where pkg: "pkg \<in> set (findPkgs False code)"
    and b: "builtinPkgs (butlast pkg) = Some path"
    by (auto simp: inferred_def)
  from findPkgs_shape [OF pkg] obtain c w where
    s: "pkg = c # w @ ''.''" "isLower c" "w \<noteq> []" "list_all isWord w" by blast
  have bl: "butlast pkg = c # w" unfolding s(1) by (simp add: butlast_append)
  have "isWord c" using s(2) by (simp add: isWord_def isLower_def)
  with s bl b pkg have "(c # w) @ ''.'' \<in> set (findPkgs False code)"
    "builtinPkgs (c # w) = Some path" "2 \<le> length (c # w)" "isLower (hd (c # w))"
    "list_all isWord (c # w)"
    by (auto simp: Suc_le_eq)
  then show ?thesis by blast
qed

text \<open>
  C10 (qualifiers of import inference): every path in the import set that the partition
  returns comes from a match, in a \<^verbatim>\<open>TEXT\<close> chunk, of a qualifier of at least two word
  characters that starts with a lower-case letter and stands before a dot. A
  single-character qualifier followed by a dot, not preceded by a word character, adds
  nothing: inference on the text is inference on what precedes it and on what follows it.
\<close>

theorem import_qualifier_shape:
  "(partition_code code = Inr (topLevel, nonTopLevel, imports) \<longrightarrow>
      path \<in> fst ` set imports \<longrightarrow>
      (\<exists>cs c q. allChunks (NewScanner code) = Inr cs \<and> c \<in> set cs \<and> kind c = KTEXT \<and>
         q @ ''.'' \<in> set (findPkgs False (text c)) \<and> builtinPkgs q = Some path \<and>
         2 \<le> length q \<and> isLower (hd q) \<and> list_all isWord q)) \<and>
   ((pre = [] \<or> \<not> isWord (last pre)) \<longrightarrow>
      inferPackages (pre @ x # ''.'' @ suf) m = inferPackages suf (inferPackages pre m))"
proof (intro conjI impI)
  assume p: "partition_code code = Inr (topLevel, nonTopLevel, imports)"
    and k: "path \<in> fst ` set imports"
  from p obtain cs state where cs: "allChunks (NewScanner code) = Inr cs"
    and state: "state = foldl addChunk initState cs"
    and keys: "fst ` set imports = (\<Union>n \<in> {1..lineNum state}. linePkgs state n)"
    by (rule partition_imports)
  from k keys obtain n c where c: "c \<in> lineChunks state n" "kind c = KTEXT"
    and i: "path \<in> inferred (text c)"
    by (auto simp: linePkgs_lineChunks)
  from c(1) have "c \<in> set cs \<or> c \<in> lineChunks initState n"
    unfolding state by (rule foldl_addChunk_origin)
  then have "c \<in> set cs" by (simp add: lineChunks_def initState_def)
  with cs c(2) inferred_shape [OF i]
  show "\<exists>cs c q. allChunks (NewScanner code) = Inr cs \<and> c \<in> set cs \<and> kind c = KTEXT \<and>
         q @ ''.'' \<in> set (findPkgs False (text c)) \<and> builtinPkgs q = Some path \<and>
         2 \<le> length q \<and> isLower (hd q) \<and> list_all isWord q"
    by blast
next
  assume "pre = [] \<or> \<not> isWord (last pre)"
  then have "findPkgs False (pre @ x # ''.'' @ suf) = findPkgs False pre @ findPkgs False suf"
    by (rule findPkgs_single_char)
  then show "inferPackages (pre @ x # ''.'' @ suf) m = inferPackages suf (inferPackages pre m)"
    by (simp add: inferPackages_foldl)
qed

lemma chunks_fmt1:
  "allChunks (NewScanner (''x.Print(fmt.Sprint(1))'' @ [NL])) =
     Inr [\<lparr>kind = KTEXT, text = ''x.Print(fmt.Sprint(1))'' @ [NL], numNL = 1\<rparr>]"
  by code_simp

lemma partition_fmt1:
  "partition_code (''x.Print(fmt.Sprint(1))'' @ [NL]) =
     Inr ([], ''//line :1'' @ [NL] @ ''x.Print(fmt.Sprint(1))'' @ [NL] @ ''//line :2'' @ [NL],
          [(''fmt'', True)])"
  using chunks_fmt1 by (simp add: chunkLoop_allChunks ev builtinPkgs_fmt)

theorem import_qualifier_shape_witness:
  "partition_code (''x.Print(fmt.Sprint(1))'' @ [NL]) =
     Inr ([], ''//line :1'' @ [NL] @ ''x.Print(fmt.Sprint(1))'' @ [NL] @ ''//line :2'' @ [NL],
          [(''fmt'', True)]) \<and>
   ''fmt'' \<in> fst ` set [(''fmt'', True)] \<and>
   (\<exists>cs c q. allChunks (NewScanner (''x.Print(fmt.Sprint(1))'' @ [NL])) = Inr cs \<and>
      c \<in> set cs \<and> kind c = KTEXT \<and> q @ ''.'' \<in> set (findPkgs False (text c)) \<and>
      builtinPkgs q = Some ''fmt'' \<and> 2 \<le> length q \<and> isLower (hd q) \<and> list_all isWord q) \<and>
   inferPackages (''y = '' @ CHR ''x'' # ''.'' @ ''Print(1)'') [] =
     inferPackages ''Print(1)'' (inferPackages ''y = '' []) \<and>
   inferPackages (''y = '' @ CHR ''x'' # ''.'' @ ''Print(1)'') [] = []"
proof -
  have k: "''fmt'' \<in> fst ` set [(''fmt'', True)]" by simp
  have b: "\<not> isWord (last ''y = '')" by (simp add: isWord_def inRange_def)
  have e: "inferPackages ''Print(1)'' (inferPackages ''y = '' []) = []"
    by (simp add: inferPackages_def isWord_def isLower_def inRange_def)
  from import_qualifier_shape [of "''x.Print(fmt.Sprint(1))'' @ [NL]" "[]" _ "[(''fmt'', True)]"
      "''fmt''" "''y = ''" "CHR ''x''" "''Print(1)''" "[]"] partition_fmt1 k b e
  show ?thesis by simp
qed

section \<open>The compile-execute-repair loop\<close>

lemma lookupBool_key: "lookupBool m k \<Longrightarrow> k \<in> fst ` set m"
  by (auto simp: lookupBool_def split: option.splits dest: map_of_SomeD intro: rev_image_eqI)

lemma length_delete_less: "k \<in> fst ` set m \<Longrightarrow> length (AList.delete k m) < length m"
proof -
  assume "k \<in> fst ` set m"
  then obtain e where "e \<in> set m" "fst e = k" by auto
  then have "length (filter (\<lambda>(k', _). k \<noteq> k') m) < length m"
    by (intro length_filter_less [of e]) auto
  then show ?thesis by (simp add: AList.delete_eq)
qed

lemma repairStep_length:
  assumes "repairStep (d, pkg, m) match = (d', pkg', m')"
  shows "length m' \<le> length m \<and> d' = (d \<or> length m' < length m)"
proof -
  have "length (AList.delete k m) < length m" if "lookupBool m k" for k
    using that by (intro length_delete_less lookupBool_key)
  moreover have "length (AList.delete k m) \<le> length m" for k
    by (rule AList.length_delete_le)
  ultimately show ?thesis using assms
    by (auto simp: repairStep_def Let_def split: if_splits)
qed

lemma foldl_repairStep_length:
  "foldl repairStep (d, pkg, m) ms = (d', pkg', m') \<Longrightarrow>
   length m' \<le> length m \<and> d' = (d \<or> length m' < length m)"
proof (induction ms arbitrary: d pkg m)
  case Nil
  then show ?case by simp
next
  case (Cons a ms)
  obtain d1 pkg1 m1 where s: "repairStep (d, pkg, m) a = (d1, pkg1, m1)"
    by (cases "repairStep (d, pkg, m) a") auto
  from repairStep_length [OF s] Cons.IH [of d1 pkg1 m1] Cons.prems s
  show ?case by auto
qed

lemma repairImports_removed:
  "fst (repairImports err m) = (length (snd (repairImports err m)) < length m)"
proof -
  obtain d pkg m' where f: "foldl repairStep (False, [], m) (repairMatches err) = (d, pkg, m')"
    by (cases "foldl repairStep (False, [], m) (repairMatches err)") auto
  from foldl_repairStep_length [OF f] f show ?thesis
    by (simp add: repairImports_def)
qed

lemma logged_apply:
  "run w src = (r, w1) \<Longrightarrow> logged run (w, journal) src = (r, (w1, journal @ [src]))"
  by (simp add: logged_def)

text \<open>
  C6 (at most two compile attempts): run with a runner that keeps the journal of its
  calls, \<^verbatim>\<open>buildAndExec\<close> calls \<^verbatim>\<open>run\<close> once or twice, never a third time. It calls it a
  second time exactly when the first call returned a non-empty error text and
  \<^verbatim>\<open>repairImports\<close> removed at least one entry of the import set. Without a second call
  the result and the world are those of the first call; with one, the second call is on
  the source rebuilt from the repaired import set, in the world the first call left, and
  its result and world are returned.
\<close>

theorem compile_attempts:
  assumes b: "buildAndExec (logged run) (w, journal) topLevel nonTopLevel m = (res, (w', journal'))"
    and m1: "m1 = AList.update ''fmt'' True m"
    and src1: "src1 = buildMain topLevel nonTopLevel m1"
    and r1: "run w src1 = (r1, w1)"
    and retry: "retry = (\<exists>out err. r1 = Inr (out, err) \<and> err \<noteq> [] \<and>
                  length (snd (repairImports err m1)) < length m1)"
  shows "(length journal' = length journal + 1 \<or> length journal' = length journal + 2) \<and>
         (length journal' = length journal + 2) = retry \<and>
         (\<not> retry \<longrightarrow> journal' = journal @ [src1] \<and> res = r1 \<and> w' = w1) \<and>
         (retry \<longrightarrow> (\<exists>out err src2. r1 = Inr (out, err) \<and>
              src2 = buildMain topLevel nonTopLevel (snd (repairImports err m1)) \<and>
              journal' = journal @ [src1, src2] \<and> run w1 src2 = (res, w')))"
proof (cases r1)
  case (Inl p)
  with retry have nr: "\<not> retry" by simp
  from b Inl r1 have "journal' = journal @ [src1] \<and> res = r1 \<and> w' = w1"
    by (simp add: buildAndExec_def Let_def m1 [symmetric] src1 [symmetric] logged_apply)
  with nr show ?thesis by simp
next
  case (Inr oe)
  obtain out err where oe: "oe = (out, err)" by (cases oe) auto
  obtain d m2 where ri: "repairImports err m1 = (d, m2)" by (cases "repairImports err m1") auto
  with repairImports_removed [of err m1] have d: "d = (length m2 < length m1)" by simp
  have rt: "retry = (err \<noteq> [] \<and> d)" using retry Inr oe ri d by simp
  show ?thesis
  proof (cases retry)
    case False
    with rt have "err = [] \<or> \<not> d" by blast
    with b Inr oe r1 ri have "journal' = journal @ [src1] \<and> res = r1 \<and> w' = w1"
      by (auto simp: buildAndExec_def Let_def m1 [symmetric] src1 [symmetric] logged_apply
          split: if_splits)
    with False show ?thesis by simp
  next
    case True
    with rt have e: "err \<noteq> []" and dd: "d" by blast+
    let ?src2 = "buildMain topLevel nonTopLevel m2"
    obtain r2 w2 where r2: "run w1 ?src2 = (r2, w2)" by (cases "run w1 ?src2") auto
    from b Inr oe r1 ri e dd r2
    have "journal' = journal @ [src1, ?src2] \<and> res = r2 \<and> w' = w2"
      by (simp add: buildAndExec_def Let_def m1 [symmetric] src1 [symmetric] logged_apply)
    with True Inr oe ri r2 show ?thesis by simp
  qed
qed


theorem compile_attempts_witness:
  "\<exists>res w' journal'.
     buildAndExec (logged (\<lambda>w src. (Inr ([], ''os redeclared as imported package name''), Suc w)))
       (0, []) [] ''x'' [(''os'', True)] = (res, (w', journal')) \<and>
     length journal' = 2 \<and> w' = 2 \<and>
     journal' = [buildMain [] ''x'' (AList.update ''fmt'' True [(''os'', True)]),
                 buildMain [] ''x'' [(''fmt'', True)]] \<and>
     repairImports ''os redeclared as imported package name''
       (AList.update ''fmt'' True [(''os'', True)]) = (True, [(''fmt'', True)])"
proof -
  let ?err = "''os redeclared as imported package name''"
  let ?run = "\<lambda>(w :: nat) (src :: string). (Inr ([], ?err) :: panic + string \<times> string, Suc w)"
  let ?m1 = "AList.update ''fmt'' True [(''os'', True)]"
  let ?src1 = "buildMain [] ''x'' ?m1"
  obtain res w' journal' where
    b: "buildAndExec (logged ?run) (0, []) [] ''x'' [(''os'', True)] = (res, (w', journal'))"
    by (metis surj_pair)
  have r: "repairImports ?err ?m1 = (True, [(''fmt'', True)])"
    by (simp add: repairImports_def repairMatches.simps repairStep_def lookupBool_def
        HasPrefix_def redeclared_def notUsed_def isWord_def inRange_def Let_def)
  have r1: "?run 0 ?src1 = (Inr ([], ?err), Suc 0)" by simp
  have "length (snd (repairImports ?err ?m1)) < length ?m1" unfolding r by simp
  then have retry: "\<exists>out err. (Inr ([], ?err) :: panic + string \<times> string) = Inr (out, err) \<and>
      err \<noteq> [] \<and> length (snd (repairImports err ?m1)) < length ?m1"
    by (intro exI [of _ "[]"] exI [of _ ?err]) simp
  from compile_attempts [OF b refl refl r1 refl] retry
  have "\<exists>out err src2. (Inr ([], ?err) :: panic + string \<times> string) = Inr (out, err) \<and>
      src2 = buildMain [] ''x'' (snd (repairImports err ?m1)) \<and>
      journal' = [] @ [?src1, src2] \<and> ?run (Suc 0) src2 = (res, w')"
    by blast
  then have "journal' = [?src1, buildMain [] ''x'' [(''fmt'', True)]]" "w' = 2"
    using r by auto
  with b r show ?thesis by auto
qed

section \<open>A newline inside a quoted literal\<close>

lemma readString_raw_newline:
  "drop (pos sc) (str sc) = body @ NL # rest \<Longrightarrow> rawBody q body \<Longrightarrow> q \<noteq> NL \<Longrightarrow> q \<noteq> BSLASH \<Longrightarrow>
   readString mark sc q = Inl (NewlineInString (pos sc + length body + 1))"
proof (induction "length body" arbitrary: body sc rule: less_induct)
  case less
  show ?case
  proof (cases body)
    case Nil
    with less.prems have "ReadRune sc = (NL, None, sc\<lparr>pos := pos sc + 1\<rparr>)"
      by (simp add: ReadRune_Cons)
    with less.prems Nil show ?thesis
      by (subst readString.simps) (auto simp: Pos_def)
  next
    case (Cons c cs)
    let ?sc1 = "sc\<lparr>pos := pos sc + 1\<rparr>"
    from less.prems(1) Cons have r: "ReadRune sc = (c, None, ?sc1)"
      and d: "drop (pos ?sc1) (str ?sc1) = cs @ NL # rest"
      using ReadRune_Cons [of sc c "cs @ NL # rest"] by simp_all
    from less.prems(2) Cons have cq: "c \<noteq> q" by (auto split: if_splits)
    show ?thesis
    proof (cases "c = BSLASH")
      case True
      with less.prems(2) Cons cq obtain d' ds where cs: "cs = d' # ds" and rb: "rawBody q ds"
        by (cases cs) auto
      let ?sc2 = "sc\<lparr>pos := pos sc + 2\<rparr>"
      from d cs have r2: "ReadRune ?sc1 = (d', None, ?sc2)"
        and d2: "drop (pos ?sc2) (str ?sc2) = ds @ NL # rest"
        using ReadRune_Cons [of ?sc1 d' "ds @ NL # rest"] by simp_all
      have "length ds < length body" using Cons cs by simp
      from less.hyps [OF this d2 rb less.prems(3,4)]
      have "readString mark ?sc2 q = Inl (NewlineInString (pos sc + length body + 1))"
        using Cons cs by simp
      with r r2 cq True show ?thesis
        by (subst readString.simps) simp
    next
      case False
      with less.prems(2) Cons cq have c: "c \<noteq> NL" and rb: "rawBody q cs" by auto
      have "length cs < length body" using Cons by simp
      from less.hyps [OF this d rb less.prems(3,4)]
      have "readString mark ?sc1 q = Inl (NewlineInString (pos sc + length body + 1))"
        using Cons by simp
      with r cq False c show ?thesis
        by (subst readString.simps) simp
    qed
  qed
qed

lemma nextChunk_newline_in_literal:
  assumes "drop (pos sc) (str sc) = q # body @ NL # rest" and "q = DQUOTE \<or> q = SQUOTE"
    and "rawBody q body"
  shows "nextChunk sc = Inl (NewlineInString (pos sc + length body + 2))"
proof -
  let ?sc1 = "sc\<lparr>pos := pos sc + 1\<rparr>"
  from assms(1) have r: "ReadRune sc = (q, None, ?sc1)"
    and d: "drop (pos ?sc1) (str ?sc1) = body @ NL # rest"
    using ReadRune_Cons [of sc q "body @ NL # rest"] by simp_all
  from assms(2) have q: "q \<noteq> NL" "q \<noteq> BSLASH" "q \<noteq> CHR ''/''" by auto
  from readString_raw_newline [OF d assms(3) q(1,2), of "Mark sc"] r q assms(2)
  show ?thesis by (auto simp: nextChunk_def Let_def)
qed

lemma Scanner_eq: "\<lparr>str = str sc, pos = pos sc\<rparr> = sc"
  by simp

lemma chunkStarts_panic:
  "p \<in> set (chunkStarts sc) \<Longrightarrow> nextChunk \<lparr>str = str sc, pos = p\<rparr> = Inl e \<Longrightarrow>
   allChunks sc = Inl e"
proof (induction "unread sc" arbitrary: sc rule: less_induct)
  case less
  show ?case
  proof (cases "p = pos sc")
    case True
    with less.prems(2) have "nextChunk sc = Inl e" by (simp add: Scanner_eq)
    then show ?thesis by (subst allChunks.simps) simp
  next
    case False
    with less.prems(1) have "p \<in> set (case nextChunk sc of
          Inl p \<Rightarrow> []
        | Inr ((chunk, err), scanner') \<Rightarrow>
            (case err of Some e \<Rightarrow> [] | None \<Rightarrow> chunkStarts scanner'))"
      by (subst (asm) chunkStarts.simps) simp
    then obtain c sc' where n': "Inr ((c, None), sc') = nextChunk sc"
      and p: "p \<in> set (chunkStarts sc')"
      by (auto split: sum.splits option.splits)
    note n = n' [symmetric]
    have lt: "pos sc < length (str sc)"
    proof (rule ccontr)
      assume "\<not> pos sc < length (str sc)"
      then have "nextChunk sc = Inr ((zeroChunk, Some EOF), sc)" by (simp add: nextChunk_eof)
      with n show False by simp
    qed
    from nextChunk_post [OF lt n] have s: "str sc' = str sc" by simp
    have "unread sc' < unread sc" using n by (rule nextChunk_progress)
    from less.hyps [OF this p] less.prems(2) s have "allChunks sc' = Inl e" by simp
    with n show ?thesis by (subst allChunks.simps) simp
  qed
qed

text \<open>
  C5 (newline in a quoted literal), amended: take an input without a leading package
  declaration whose alias-expanded text (what the chunker reads) has, at a place where the
  chunker starts a chunk, a single or double quote, then characters that leave the
  literal open (no closing quote and no newline, but for what a backslash escapes), then
  a raw newline. For every runner and world, \<^verbatim>\<open>Eval\<close> returns an empty output and the
  non-empty error text \<^verbatim>\<open>1:Newline in string @\<close> followed by the position, and returns
  the world as it was: \<^verbatim>\<open>run\<close> is not called, and the panic does not reach the caller.
\<close>

theorem newline_in_literal_fatal:
  assumes "\<not> hasPackageDecl code"
    and "p \<in> set (chunkStarts (NewScanner (expandAliases code)))"
    and "drop p (expandAliases code) = q # body @ NL # rest"
    and "q = DQUOTE \<or> q = SQUOTE"
    and "rawBody q body"
  shows "Eval run w code =
           (([], ''1:Newline in string @ '' @ runeString (p + length body + 2)), w)"
proof -
  let ?s = "expandAliases code"
  let ?sc = "\<lparr>str = str (NewScanner ?s), pos = p\<rparr>"
  have "drop (pos ?sc) (str ?sc) = q # body @ NL # rest"
    using assms(3) by (simp add: NewScanner_def)
  from nextChunk_newline_in_literal [OF this assms(4,5)]
  have "nextChunk ?sc = Inl (NewlineInString (p + length body + 2))" by simp
  with assms(2) have "allChunks (NewScanner ?s) = Inl (NewlineInString (p + length body + 2))"
    by (rule chunkStarts_panic)
  then have "partition_code ?s = Inl (NewlineInString (p + length body + 2))"
    by (simp add: partition_code_def chunkLoop_allChunks)
  with assms(1) show ?thesis
    by (simp add: Eval_def recovered_def panicText_def)
qed


lemma buildAndExec_logged_grows:
  "buildAndExec (logged run) (w, journal) t n m = (res, (w', journal')) \<Longrightarrow>
   length journal < length journal'"
  by (auto simp: buildAndExec_def logged_def Let_def split: prod.splits sum.splits if_splits)

lemma Eval_logged_runs:
  assumes "\<not> hasPackageDecl code" and "partition_code (expandAliases code) = Inr (t, n, m)"
  shows "snd (snd (Eval (logged run) (w, [])  code)) \<noteq> []"
proof -
  obtain res w' journal' where
    b: "buildAndExec (logged run) (w, []) t n m = (res, (w', journal'))"
    by (metis surj_pair)
  from buildAndExec_logged_grows [OF b] have "journal' \<noteq> []" by auto
  with assms b show ?thesis by (auto simp: Eval_def split: sum.splits)
qed

theorem newline_in_literal_fatal_witness:
  "\<not> hasPackageDecl (''s := '' @ [DQUOTE] @ ''a'' @ [BSLASH, DQUOTE] @ ''b'' @ [NL] @ ''c'' @ [DQUOTE]) \<and>
   expandAliases (''s := '' @ [DQUOTE] @ ''a'' @ [BSLASH, DQUOTE] @ ''b'' @ [NL] @ ''c'' @ [DQUOTE]) =
     ''s := '' @ [DQUOTE] @ ''a'' @ [BSLASH, DQUOTE] @ ''b'' @ [NL] @ ''c'' @ [DQUOTE] \<and>
   chunkStarts (NewScanner
     (''s := '' @ [DQUOTE] @ ''a'' @ [BSLASH, DQUOTE] @ ''b'' @ [NL] @ ''c'' @ [DQUOTE])) = [0, 5] \<and>
   rawBody DQUOTE (''a'' @ [BSLASH, DQUOTE] @ ''b'') \<and>
   Eval (logged (\<lambda>w src. (Inr ([], []), Suc w))) (0, [])
     (''s := '' @ [DQUOTE] @ ''a'' @ [BSLASH, DQUOTE] @ ''b'' @ [NL] @ ''c'' @ [DQUOTE]) =
     (([], ''1:Newline in string @ '' @ runeString 11), (0, []))"
proof -
  let ?code = "''s := '' @ [DQUOTE] @ ''a'' @ [BSLASH, DQUOTE] @ ''b'' @ [NL] @ ''c'' @ [DQUOTE]"
  have h: "\<not> hasPackageDecl ?code"
    by (simp add: hasPackageDecl_def HasPrefix_def reSpace_def)
  have e: "expandAliases ?code = ?code"
    by (simp add: expandAliases_def matchAlias_def reSpace_def)
  have c: "chunkStarts (NewScanner ?code) = [0, 5]"
    by code_simp
  then have p: "5 \<in> set (chunkStarts (NewScanner (expandAliases ?code)))"
    by (simp only: e) simp
  have d: "drop 5 (expandAliases ?code) =
      DQUOTE # (''a'' @ [BSLASH, DQUOTE] @ ''b'') @ NL # (''c'' @ [DQUOTE])"
    by (simp only: e) simp
  have r: "rawBody DQUOTE (''a'' @ [BSLASH, DQUOTE] @ ''b'')" by simp
  from newline_in_literal_fatal [OF h p d _ r,
      of "logged (\<lambda>w src. (Inr ([], []), Suc w))" "(0, [])"]
  have "Eval (logged (\<lambda>w src. (Inr ([], []), Suc w))) (0, []) ?code =
      (([], ''1:Newline in string @ '' @ runeString 11), (0 :: nat, []))"
    by simp
  with h e c r show ?thesis by (intro conjI)
qed

text \<open>
  C5, as stated, fails: this input has no package declaration and, at its beginning, a
  single quote, an escaped newline and then a raw newline (the chunker, run on the input
  itself, panics there). But \<^verbatim>\<open>Eval\<close> chunks the alias-expanded text: the \<^verbatim>\<open>\s*\<close> of the
  alias pattern runs over the empty line, the replacement removes the raw newline, the
  partition succeeds and \<^verbatim>\<open>run\<close> is called.
\<close>

theorem newline_in_literal_counterexample:
  "\<not> hasPackageDecl ([SQUOTE, BSLASH, NL, NL] @ '' p x'' @ [SQUOTE]) \<and>
   chunkStarts (NewScanner ([SQUOTE, BSLASH, NL, NL] @ '' p x'' @ [SQUOTE])) = [0] \<and>
   [SQUOTE, BSLASH, NL, NL] @ '' p x'' @ [SQUOTE] =
     SQUOTE # [BSLASH, NL] @ NL # ('' p x'' @ [SQUOTE]) \<and>
   rawBody SQUOTE [BSLASH, NL] \<and>
   allChunks (NewScanner ([SQUOTE, BSLASH, NL, NL] @ '' p x'' @ [SQUOTE])) =
     Inl (NewlineInString 4) \<and>
   expandAliases ([SQUOTE, BSLASH, NL, NL] @ '' p x'' @ [SQUOTE]) =
     [SQUOTE, BSLASH, NL] @ ''__p(x'' @ [SQUOTE] @ '')'' \<and>
   partition_code (expandAliases ([SQUOTE, BSLASH, NL, NL] @ '' p x'' @ [SQUOTE])) =
     Inr ([], ''//line :1'' @ [NL] @ [SQUOTE, BSLASH, NL] @ ''__p(x'' @ [SQUOTE] @ '')'', []) \<and>
   snd (snd (Eval (logged (\<lambda>w src. (Inr ([], []), Suc w))) (0, [])
     ([SQUOTE, BSLASH, NL, NL] @ '' p x'' @ [SQUOTE]))) \<noteq> []"
proof -
  let ?code = "[SQUOTE, BSLASH, NL, NL] @ '' p x'' @ [SQUOTE]"
  let ?exp = "[SQUOTE, BSLASH, NL] @ ''__p(x'' @ [SQUOTE] @ '')''"
  have h: "\<not> hasPackageDecl ?code"
    by (simp add: hasPackageDecl_def HasPrefix_def reSpace_def)
  have e: "expandAliases ?code = ?exp"
    by (simp add: expandAliases_def matchAlias_def reSpace_def)
  have c: "chunkStarts (NewScanner ?code) = [0]"
    by code_simp
  have s: "?code = SQUOTE # [BSLASH, NL] @ NL # ('' p x'' @ [SQUOTE])" by simp
  have r: "rawBody SQUOTE [BSLASH, NL]" by simp
  have a: "allChunks (NewScanner ?code) = Inl (NewlineInString 4)"
    by code_simp
  have "allChunks (NewScanner ?exp) =
      Inr [\<lparr>kind = KSTRING, text = [SQUOTE, BSLASH, NL] @ ''__p(x'' @ [SQUOTE], numNL = 0\<rparr>,
           \<lparr>kind = KTEXT, text = '')'', numNL = 0\<rparr>]"
    by code_simp
  then have "partition_code ?exp = Inr ([], ''//line :1'' @ [NL] @ ?exp, [])"
    by (simp add: chunkLoop_allChunks ev)
  then have p: "partition_code (expandAliases ?code) = Inr ([], ''//line :1'' @ [NL] @ ?exp, [])"
    by (simp only: e)
  from Eval_logged_runs [OF h p, of "\<lambda>w src. (Inr ([], []), Suc w)" 0] h c s r a e p
  show ?thesis by (intro conjI)
qed

end
